theory Spec2Isabelle
  imports Main "HOL-Library.Word"
begin

section \<open>Data model of package kettle\<close>

text \<open>
  Go's \<open>int32\<close> and \<open>int64\<close> are words; \<open>time.Duration\<close> is an \<open>int64\<close> count of
  nanoseconds, so \<open>time.Second * time.Duration(n)\<close> is a wrapping 64-bit product.
\<close>

type_synonym int32 = "32 word"
type_synonym int64 = "64 word"
type_synonym Duration = "64 word"

definition Second :: Duration where
  "Second = 1000000000"

text \<open>
  Values of Go's \<open>error\<close> interface that the package creates or passes on. A nil error is
  \<open>None\<close> of \<open>error option\<close>. \<open>NumError\<close> is the \<open>*strconv.NumError\<close> of
  \<open>strconv.Atoi\<close> for the given input (its syntax/range kind is not distinguished);
  \<open>OtherError\<close> stands for any error of the lock backend.
\<close>

datatype error =
    InputCannotBeNil
  | RedisHostMustBeSet
  | NumError string
  | OtherError string

text \<open>A run-time panic of the Go program (the process dies).\<close>

datatype panic =
    NilDereference
  | NonPositiveTickerInterval

text \<open>\<open>redis.DialOption\<close> values built by \<open>NewRedisPool\<close>, and the \<open>redis.Pool\<close> literal.\<close>

datatype DialOption =
    DialPassword string
  | DialConnectTimeout Duration

record Pool =
  MaxIdle :: int
  MaxActive :: int
  Wait :: bool
  IdleTimeout :: Duration
  DialNetwork :: string
  DialAddr :: string
  DialOpts :: "DialOption list"

text \<open>
  A value of the \<open>DistLocker\<close> interface: either a locker supplied by the caller
  (of some type \<open>'l\<close>), or the \<open>*redsync.Mutex\<close> that \<open>New\<close> builds, recorded by the
  arguments of \<open>redsync.New\<close> and \<open>NewMutex\<close>. The nil interface is \<open>None\<close> of
  \<open>DistLocker option\<close>. What \<open>Lock()\<close> returns is decided outside the package and is
  an input of every function that calls it.
\<close>

datatype 'l DistLocker =
    CustomLocker 'l
  | RedsyncMutex (mutexName: string) (mutexExpiry: Duration) (mutexPools: "Pool list")

text \<open>
  \<open>StartInput\<close>: \<open>Master\<close> is a nilable func value, \<open>MasterCtx\<close> an opaque value,
  \<open>Quit\<close> and \<open>Done\<close> are channels owned by the caller (identified by a number, nil is
  \<open>None\<close>).
\<close>

type_synonym chan_id = nat

record 'c StartInput =
  Master :: "('c \<Rightarrow> error option) option"
  MasterCtx :: 'c
  Quit :: "chan_id option"
  Done :: "chan_id option"

text \<open>
  A \<open>chan error\<close> made by the package: its capacity and the values buffered in it.
  A nil channel is \<open>None\<close> of \<open>chan option\<close>.
\<close>

record chan =
  cap :: nat
  buf :: "error option list"

definition make_chan :: "nat \<Rightarrow> chan" where
  "make_chan n = \<lparr>cap = n, buf = []\<rparr>"

record ('l, 'c) Kettle =
  name :: string
  verbose :: bool
  pool :: "Pool option"
  lock :: "'l DistLocker option"
  master :: int32
  hostname :: string
  startInput :: "'c StartInput option"
  masterQuit :: "chan option"
  masterDone :: "chan option"
  tickTime :: int64

section \<open>Options\<close>

text \<open>The four implementations of \<open>KettleOption\<close> and their \<open>Apply\<close> methods.\<close>

datatype 'l KettleOption =
    withName string
  | withVerbose bool
  | withDistLocker "'l DistLocker option"
  | withTickTime int64

fun Apply :: "'l KettleOption \<Rightarrow> ('l, 'c) Kettle \<Rightarrow> ('l, 'c) Kettle" where
  "Apply (withName w) o' = o'\<lparr>name := w\<rparr>"
| "Apply (withVerbose w) o' = o'\<lparr>verbose := w\<rparr>"
| "Apply (withDistLocker dl) o' = o'\<lparr>lock := dl\<rparr>"
| "Apply (withTickTime w) o' = o'\<lparr>tickTime := w\<rparr>"

definition WithName :: "string \<Rightarrow> 'l KettleOption" where
  "WithName v = withName v"

definition WithVerbose :: "bool \<Rightarrow> 'l KettleOption" where
  "WithVerbose v = withVerbose v"

definition WithDistLocker :: "'l DistLocker option \<Rightarrow> 'l KettleOption" where
  "WithDistLocker v = withDistLocker v"

definition WithTickTime :: "int64 \<Rightarrow> 'l KettleOption" where
  "WithTickTime v = withTickTime v"

section \<open>The default backend: \<open>NewRedisPool\<close>\<close>

text \<open>
  The process environment as the package sees it: the function \<open>os.Getenv\<close>, which
  returns the empty string for a variable that is not set.
\<close>

type_synonym environ = "string \<Rightarrow> string"

definition Getenv :: "environ \<Rightarrow> string \<Rightarrow> string" where
  "Getenv env k = env k"

text \<open>
  \<open>strconv.Atoi\<close> on a platform with 64-bit \<open>int\<close>: an optional sign, then one or more
  decimal digits, and the value must fit in 64 bits; anything else is a \<open>*NumError\<close>.
\<close>

definition is_digit :: "char \<Rightarrow> bool" where
  "is_digit c = ((48::nat) \<le> of_char c \<and> of_char c \<le> (57::nat))"

fun digits_value :: "int \<Rightarrow> string \<Rightarrow> int" where
  "digits_value acc [] = acc"
| "digits_value acc (c # cs) = digits_value (acc * 10 + (int (of_char c) - 48)) cs"

definition Atoi :: "string \<Rightarrow> error + int" where
  "Atoi s =
     (let neg = (s \<noteq> [] \<and> hd s = CHR ''-'');
          ds = (if s \<noteq> [] \<and> (hd s = CHR ''-'' \<or> hd s = CHR ''+'') then tl s else s)
      in if ds \<noteq> [] \<and> list_all is_digit ds
         then let n = digits_value 0 ds
              in if neg then (if 2 ^ 63 < n then Inl (NumError s) else Inr (- n))
                 else (if 2 ^ 63 \<le> n then Inl (NumError s) else Inr n)
         else Inl (NumError s))"

definition NewRedisPool :: "environ \<Rightarrow> error + Pool" where
  "NewRedisPool env =
     (let addr = Getenv env ''REDIS_HOST'' in
      if addr = [] then Inl RedisHostMustBeSet
      else
        let password = Getenv env ''REDIS_PASSWORD'';
            dialOpts = (if password \<noteq> [] then [DialPassword password] else []);
            tm = Getenv env ''REDIS_TIMEOUT_SECONDS''
        in
          case (if tm \<noteq> []
                then (case Atoi tm of
                        Inl err \<Rightarrow> Inl err
                      | Inr tmsec \<Rightarrow>
                          Inr (dialOpts @ [DialConnectTimeout (word_of_int tmsec * Second)]))
                else Inr dialOpts) of
            Inl err \<Rightarrow> Inl err
          | Inr dialOpts' \<Rightarrow>
              Inr \<lparr>MaxIdle = 3, MaxActive = 4, Wait = True, IdleTimeout = 240 * Second,
                   DialNetwork = ''tcp'', DialAddr = addr, DialOpts = dialOpts'\<rparr>)"

section \<open>\<open>New\<close>\<close>

definition new_defaults :: "('l, 'c) Kettle" where
  "new_defaults =
     \<lparr>name = ''kettle'', verbose = False, pool = None, lock = None, master = 0,
      hostname = [], startInput = None, masterQuit = None, masterDone = None,
      tickTime = 30\<rparr>"

text \<open>The loop \<open>for _, opt := range opts { opt.Apply(s) }\<close>.\<close>

fun apply_opts :: "'l KettleOption list \<Rightarrow> ('l, 'c) Kettle \<Rightarrow> ('l, 'c) Kettle" where
  "apply_opts [] s = s"
| "apply_opts (opt # opts) s = apply_opts opts (Apply opt s)"

definition New :: "'l KettleOption list \<Rightarrow> environ \<Rightarrow> error + ('l, 'c) Kettle" where
  "New opts env =
     (let s = apply_opts opts new_defaults in
      if lock s = None then
        (case NewRedisPool env of
           Inl err \<Rightarrow> Inl err
         | Inr p \<Rightarrow>
             Inr (s\<lparr>pool := Some p,
                    lock := Some (RedsyncMutex (name s @ ''-distlocker'')
                                               (Second * tickTime s) [p])\<rparr>))
      else Inr s)"

section \<open>Logging helpers and the master flag\<close>

text \<open>
  Everything the package does to the outside world is recorded as an event, in program
  order: a line written by \<open>log.Printf\<close>, \<open>os.Exit\<close>, the creation of the ticker, a call
  of \<open>s.lock.Lock()\<close>, a call of the \<open>Master\<close> callback (with its argument), the start
  of a goroutine, and a completed send or receive on a channel.
\<close>

datatype level = Info | Error

datatype goroutine = Watcher | DoMaster | Loop

datatype channel = QuitCh | DoneCh | MasterQuitCh | MasterDoneCh | TickerC

datatype 'c event =
    EvLog level string
  | EvExit int
  | EvNewTicker Duration
  | EvLock
  | EvMaster 'c
  | EvGo goroutine
  | EvSend channel
  | EvRecv channel

text \<open>\<open>fmt.Sprintln\<close> of string operands: separated by spaces, ended by a newline.\<close>

fun Sprintln :: "string list \<Rightarrow> string" where
  "Sprintln [] = [CHR 0x0A]"
| "Sprintln [v] = v @ [CHR 0x0A]"
| "Sprintln (v # vs) = v @ '' '' @ Sprintln vs"

text \<open>
  The logging methods have value receivers and only read \<open>verbose\<close>. \<open>infof\<close> and
  \<open>errorf\<close> take the message that \<open>fmt.Sprintf\<close> has formatted.
\<close>

definition info :: "('l, 'c) Kettle \<Rightarrow> string list \<Rightarrow> 'c event list" where
  "info s v = (if \<not> verbose s then [] else [EvLog Info (Sprintln v)])"

definition infof :: "('l, 'c) Kettle \<Rightarrow> string \<Rightarrow> 'c event list" where
  "infof s m = (if \<not> verbose s then [] else [EvLog Info m])"

definition error :: "('l, 'c) Kettle \<Rightarrow> string list \<Rightarrow> 'c event list" where
  "error s v = (if \<not> verbose s then [] else [EvLog Error (Sprintln v)])"

definition errorf :: "('l, 'c) Kettle \<Rightarrow> string \<Rightarrow> 'c event list" where
  "errorf s m = (if \<not> verbose s then [] else [EvLog Error m])"

definition fatal :: "('l, 'c) Kettle \<Rightarrow> string list \<Rightarrow> 'c event list" where
  "fatal s v = error s v @ [EvExit 1]"

definition fatalf :: "('l, 'c) Kettle \<Rightarrow> string \<Rightarrow> 'c event list" where
  "fatalf s m = errorf s m @ [EvExit 1]"

definition isMaster :: "('l, 'c) Kettle \<Rightarrow> bool" where
  "isMaster s = (if master s = 1 then True else False)"

text \<open>
  \<open>setMaster\<close>: the second argument is what \<open>s.lock.Lock()\<close> returns in this call.
  Calling a method of a nil interface value panics.
\<close>

definition setMaster ::
  "('l, 'c) Kettle \<Rightarrow> error option \<Rightarrow> panic + (('l, 'c) Kettle \<times> 'c event list)" where
  "setMaster s r =
     (case lock s of
        None \<Rightarrow> Inl NilDereference
      | Some l \<Rightarrow>
          (case r of
             Some err \<Rightarrow>
               Inr (s\<lparr>master := 0\<rparr>,
                    EvLock # infof s (''['' @ name s @ ''] '' @ hostname s @ '' set to worker''))
           | None \<Rightarrow>
               Inr (s\<lparr>master := 1\<rparr>,
                    EvLock # infof s (''['' @ name s @ ''] '' @ hostname s @ '' set to master''))))"

section \<open>The election engine: \<open>doMaster\<close>\<close>

text \<open>
  The closure \<open>work\<close> of \<open>doMaster\<close>. The value the callback returns is bound and
  dropped, as in the source. \<open>s.startInput\<close> is a pointer: reading a field of it when
  it is nil panics.
\<close>

definition work ::
  "('l, 'c) Kettle \<Rightarrow> error option \<Rightarrow> panic + (('l, 'c) Kettle \<times> 'c event list)" where
  "work s r =
     (case setMaster s r of
        Inl p \<Rightarrow> Inl p
      | Inr (s', evs) \<Rightarrow>
          if isMaster s' then
            (case startInput s' of
               None \<Rightarrow> Inl NilDereference
             | Some inp \<Rightarrow>
                 (case Master inp of
                    None \<Rightarrow> Inr (s', evs)
                  | Some f \<Rightarrow>
                      (case f (MasterCtx inp) of
                         ignored \<Rightarrow> Inr (s', evs @ [EvMaster (MasterCtx inp)]))))
          else Inr (s', evs))"

text \<open>\<open>time.NewTicker\<close> panics when its interval is not positive.\<close>

definition NewTicker :: "Duration \<Rightarrow> panic + Duration" where
  "NewTicker d = (if sint d \<le> 0 then Inl NonPositiveTickerInterval else Inr d)"

text \<open>
  The body of \<open>doMaster\<close> up to and including the \<open>go\<close> statement that starts the loop;
  the argument \<open>r\<close> is the result of \<open>Lock()\<close> in the first call of \<open>work\<close>.
\<close>

definition doMaster ::
  "('l, 'c) Kettle \<Rightarrow> error option \<Rightarrow> panic + (('l, 'c) Kettle \<times> 'c event list)" where
  "doMaster s r =
     (case NewTicker (Second * tickTime s) of
        Inl p \<Rightarrow> Inl p
      | Inr d \<Rightarrow>
          (case work s r of
             Inl p \<Rightarrow> Inl p
           | Inr (s', evs) \<Rightarrow> Inr (s', EvNewTicker d # evs @ [EvGo Loop])))"

text \<open>
  The loop goroutine, run on the list of cases its \<open>select\<close> takes: a tick (with the
  result of \<open>Lock()\<close> in the cycle it starts) or a value from \<open>masterQuit\<close>. The flag
  of the result says whether the goroutine has returned.
\<close>

datatype select_case = TickCase "error option" | QuitCase

fun loop ::
  "('l, 'c) Kettle \<Rightarrow> select_case list \<Rightarrow> panic + (('l, 'c) Kettle \<times> 'c event list \<times> bool)"
  where
  "loop s [] = Inr (s, [], False)"
| "loop s (TickCase r # cs) =
     (case work s r of
        Inl p \<Rightarrow> Inl p
      | Inr (s', evs) \<Rightarrow>
          (case loop s' cs of
             Inl p \<Rightarrow> Inl p
           | Inr (s'', evs', returned) \<Rightarrow> Inr (s'', EvRecv TickerC # evs @ evs', returned)))"
| "loop s (QuitCase # cs) = Inr (s, [EvRecv MasterQuitCh, EvSend MasterDoneCh], True)"

text \<open>The whole engine: \<open>doMaster\<close>, then the loop it starts.\<close>

definition engine ::
  "('l, 'c) Kettle \<Rightarrow> error option \<Rightarrow> select_case list
     \<Rightarrow> panic + (('l, 'c) Kettle \<times> 'c event list \<times> bool)" where
  "engine s r cs =
     (case doMaster s r of
        Inl p \<Rightarrow> Inl p
      | Inr (s', evs) \<Rightarrow>
          (case loop s' cs of
             Inl p \<Rightarrow> Inl p
           | Inr (s'', evs', returned) \<Rightarrow> Inr (s'', evs @ evs', returned)))"

section \<open>\<open>Start\<close>\<close>

text \<open>
  \<open>Start\<close> returns its error, the Kettle as it leaves it, and the goroutines it has
  started. \<open>host\<close> is what \<open>os.Hostname\<close> returns (its error is dropped), \<open>uuid\<close> the
  text of \<open>uuid.NewV4()\<close>.
\<close>

definition Start ::
  "('l, 'c) Kettle \<Rightarrow> 'c StartInput option \<Rightarrow> string \<Rightarrow> string
     \<Rightarrow> error option \<times> ('l, 'c) Kettle \<times> goroutine list" where
  "Start s inp host uuid =
     (case inp of
        None \<Rightarrow> (Some InputCannotBeNil, s, [])
      | Some i \<Rightarrow>
          (None,
           s\<lparr>startInput := Some i,
             hostname := host @ ''__'' @ uuid,
             masterQuit := Some (make_chan 1),
             masterDone := Some (make_chan 1)\<rparr>,
           [Watcher, DoMaster]))"

section \<open>The goroutines of \<open>Start\<close>, step by step\<close>

text \<open>
  \<open>Start\<close> leaves two goroutines: the watcher (the \<open>go func\<close> of \<open>Start\<close>) and
  \<open>doMaster\<close>, which later turns into the loop goroutine. They share the Kettle. A state
  of the running system holds the Kettle (with the two channels \<open>Start\<close> made), the
  \<open>StartInput\<close> captured by the watcher, the place each goroutine has reached, the
  ticker channel (\<open>None\<close> before \<open>NewTicker\<close>, else whether a tick is waiting in it),
  a panic if one has killed the process, and the events so far.
\<close>

datatype wpc = W_RecvQuit | W_SendMasterQuit | W_RecvMasterDone | W_SendDone | W_Returned

datatype cycle = First | Later

datatype phase = InLock | InCallback

datatype epc = E_NewTicker | E_Work cycle phase | E_Go | E_Select | E_SendMasterDone | E_Returned

record ('l, 'c) system =
  kettle :: "('l, 'c) Kettle"
  input :: "'c StartInput"
  w_pc :: wpc
  e_pc :: epc
  tickerC :: "bool option"
  crashed :: "panic option"
  events :: "'c event list"

text \<open>
  A send on a buffered channel completes when the buffer has room, a receive when it holds
  a value; otherwise, and on a nil channel, the goroutine stays blocked (\<open>None\<close>).
\<close>

definition chan_send :: "chan option \<Rightarrow> error option \<Rightarrow> chan option option" where
  "chan_send c v =
     (case c of
        None \<Rightarrow> None
      | Some ch \<Rightarrow> if length (buf ch) < cap ch then Some (Some (ch\<lparr>buf := buf ch @ [v]\<rparr>)) else None)"

definition chan_recv :: "chan option \<Rightarrow> (error option \<times> chan option) option" where
  "chan_recv c =
     (case c of
        None \<Rightarrow> None
      | Some ch \<Rightarrow> (case buf ch of [] \<Rightarrow> None | v # vs \<Rightarrow> Some (v, Some (ch\<lparr>buf := vs\<rparr>))))"

text \<open>
  What can happen next. The caller, the lock backend, the callback and the Go runtime
  decide when \<open>in.Quit\<close> yields a value, when \<open>in.Done\<close> takes one, what \<open>Lock()\<close>
  returns and when, what the callback returns and when, when the ticker fires, and which
  ready case a \<open>select\<close> takes; the other steps are the goroutines' own statements.
\<close>

datatype action =
    QuitArrives
  | WatcherStep
  | DoneTaken
  | EngineStep
  | LockReturns "error option"
  | MasterReturns "error option"
  | TickerFires
  | SelectTick
  | SelectQuit

text \<open>The watcher: \<open><-in.Quit\<close>, then \<open>s.masterQuit <- nil\<close>, \<open><-s.masterDone\<close>, \<open>in.Done <- nil\<close>.\<close>

definition quit_arrives :: "('l, 'c) system \<Rightarrow> ('l, 'c) system option" where
  "quit_arrives \<sigma> =
     (if w_pc \<sigma> = W_RecvQuit \<and> Quit (input \<sigma>) \<noteq> None
      then Some (\<sigma>\<lparr>w_pc := W_SendMasterQuit,
                   events := events \<sigma> @ EvRecv QuitCh #
                     infof (kettle \<sigma>) (''['' @ name (kettle \<sigma>) @ ''] requested to terminate'')\<rparr>)
      else None)"

definition watcher_step :: "('l, 'c) system \<Rightarrow> ('l, 'c) system option" where
  "watcher_step \<sigma> =
     (case w_pc \<sigma> of
        W_SendMasterQuit \<Rightarrow>
          (case chan_send (masterQuit (kettle \<sigma>)) None of
             None \<Rightarrow> None
           | Some c' \<Rightarrow>
               Some (\<sigma>\<lparr>kettle := (kettle \<sigma>)\<lparr>masterQuit := c'\<rparr>, w_pc := W_RecvMasterDone,
                       events := events \<sigma> @ [EvSend MasterQuitCh]\<rparr>))
      | W_RecvMasterDone \<Rightarrow>
          (case chan_recv (masterDone (kettle \<sigma>)) of
             None \<Rightarrow> None
           | Some (v, c') \<Rightarrow>
               Some (\<sigma>\<lparr>kettle := (kettle \<sigma>)\<lparr>masterDone := c'\<rparr>, w_pc := W_SendDone,
                       events := events \<sigma> @ EvRecv MasterDoneCh #
                         infof (kettle \<sigma>) (''['' @ name (kettle \<sigma>) @ ''] terminate complete'')\<rparr>))
      | _ \<Rightarrow> None)"

definition done_taken :: "('l, 'c) system \<Rightarrow> ('l, 'c) system option" where
  "done_taken \<sigma> =
     (if w_pc \<sigma> = W_SendDone \<and> Done (input \<sigma>) \<noteq> None
      then Some (\<sigma>\<lparr>w_pc := W_Returned, events := events \<sigma> @ [EvSend DoneCh]\<rparr>)
      else None)"

text \<open>
  \<open>doMaster\<close> and its loop: \<open>NewTicker\<close>, the first \<open>work()\<close>, the \<open>go\<close> statement, then
  the \<open>select\<close>; a tick starts another \<open>work()\<close>, a value from \<open>masterQuit\<close> leads to
  \<open>s.masterDone <- nil\<close> and the return. \<open>work()\<close> is in flight from its start until
  \<open>Lock()\<close> has returned and, when the callback is called, until that has returned.
\<close>

definition work_done :: "cycle \<Rightarrow> epc" where
  "work_done c = (case c of First \<Rightarrow> E_Go | Later \<Rightarrow> E_Select)"

definition engine_step :: "('l, 'c) system \<Rightarrow> ('l, 'c) system option" where
  "engine_step \<sigma> =
     (case e_pc \<sigma> of
        E_NewTicker \<Rightarrow>
          (case NewTicker (Second * tickTime (kettle \<sigma>)) of
             Inl p \<Rightarrow> Some (\<sigma>\<lparr>crashed := Some p\<rparr>)
           | Inr d \<Rightarrow>
               Some (\<sigma>\<lparr>tickerC := Some False, e_pc := E_Work First InLock,
                       events := events \<sigma> @ [EvNewTicker d]\<rparr>))
      | E_Go \<Rightarrow> Some (\<sigma>\<lparr>e_pc := E_Select, events := events \<sigma> @ [EvGo Loop]\<rparr>)
      | E_SendMasterDone \<Rightarrow>
          (case chan_send (masterDone (kettle \<sigma>)) None of
             None \<Rightarrow> None
           | Some c' \<Rightarrow>
               Some (\<sigma>\<lparr>kettle := (kettle \<sigma>)\<lparr>masterDone := c'\<rparr>, e_pc := E_Returned,
                       events := events \<sigma> @ [EvSend MasterDoneCh]\<rparr>))
      | _ \<Rightarrow> None)"

definition lock_returns :: "error option \<Rightarrow> ('l, 'c) system \<Rightarrow> ('l, 'c) system option" where
  "lock_returns r \<sigma> =
     (case e_pc \<sigma> of
        E_Work c InLock \<Rightarrow>
          (case setMaster (kettle \<sigma>) r of
             Inl p \<Rightarrow> Some (\<sigma>\<lparr>crashed := Some p\<rparr>)
           | Inr (s', evs) \<Rightarrow>
               if isMaster s' then
                 (case startInput s' of
                    None \<Rightarrow>
                      Some (\<sigma>\<lparr>kettle := s', crashed := Some NilDereference,
                              events := events \<sigma> @ evs\<rparr>)
                  | Some inp \<Rightarrow>
                      (case Master inp of
                         None \<Rightarrow>
                           Some (\<sigma>\<lparr>kettle := s', e_pc := work_done c,
                                   events := events \<sigma> @ evs\<rparr>)
                       | Some f \<Rightarrow>
                           Some (\<sigma>\<lparr>kettle := s', e_pc := E_Work c InCallback,
                                   events := events \<sigma> @ evs @ [EvMaster (MasterCtx inp)]\<rparr>)))
               else Some (\<sigma>\<lparr>kettle := s', e_pc := work_done c, events := events \<sigma> @ evs\<rparr>))
      | _ \<Rightarrow> None)"

definition master_returns :: "error option \<Rightarrow> ('l, 'c) system \<Rightarrow> ('l, 'c) system option" where
  "master_returns err \<sigma> =
     (case e_pc \<sigma> of
        E_Work c InCallback \<Rightarrow> Some (\<sigma>\<lparr>e_pc := work_done c\<rparr>)
      | _ \<Rightarrow> None)"

text \<open>The ticker's channel holds one tick; a tick that finds it full is dropped.\<close>

definition ticker_fires :: "('l, 'c) system \<Rightarrow> ('l, 'c) system option" where
  "ticker_fires \<sigma> =
     (case tickerC \<sigma> of None \<Rightarrow> None | Some b \<Rightarrow> Some (\<sigma>\<lparr>tickerC := Some True\<rparr>))"

definition select_tick :: "('l, 'c) system \<Rightarrow> ('l, 'c) system option" where
  "select_tick \<sigma> =
     (if e_pc \<sigma> = E_Select \<and> tickerC \<sigma> = Some True
      then Some (\<sigma>\<lparr>tickerC := Some False, e_pc := E_Work Later InLock,
                   events := events \<sigma> @ [EvRecv TickerC]\<rparr>)
      else None)"

definition select_quit :: "('l, 'c) system \<Rightarrow> ('l, 'c) system option" where
  "select_quit \<sigma> =
     (if e_pc \<sigma> = E_Select
      then (case chan_recv (masterQuit (kettle \<sigma>)) of
              None \<Rightarrow> None
            | Some (v, c') \<Rightarrow>
                Some (\<sigma>\<lparr>kettle := (kettle \<sigma>)\<lparr>masterQuit := c'\<rparr>, e_pc := E_SendMasterDone,
                        events := events \<sigma> @ [EvRecv MasterQuitCh]\<rparr>))
      else None)"

text \<open>One step: \<open>None\<close> when the action cannot happen in this state. A panic ends everything.\<close>

definition step :: "action \<Rightarrow> ('l, 'c) system \<Rightarrow> ('l, 'c) system option" where
  "step a \<sigma> =
     (if crashed \<sigma> \<noteq> None then None
      else case a of
          QuitArrives \<Rightarrow> quit_arrives \<sigma>
        | WatcherStep \<Rightarrow> watcher_step \<sigma>
        | DoneTaken \<Rightarrow> done_taken \<sigma>
        | EngineStep \<Rightarrow> engine_step \<sigma>
        | LockReturns r \<Rightarrow> lock_returns r \<sigma>
        | MasterReturns err \<Rightarrow> master_returns err \<sigma>
        | TickerFires \<Rightarrow> ticker_fires \<sigma>
        | SelectTick \<Rightarrow> select_tick \<sigma>
        | SelectQuit \<Rightarrow> select_quit \<sigma>)"

fun run :: "action list \<Rightarrow> ('l, 'c) system \<Rightarrow> ('l, 'c) system option" where
  "run [] \<sigma> = Some \<sigma>"
| "run (a # as) \<sigma> = (case step a \<sigma> of None \<Rightarrow> None | Some \<sigma>' \<Rightarrow> run as \<sigma>')"

text \<open>The system as \<open>Start\<close> leaves it when it returns nil: both goroutines at their start.\<close>

definition boot ::
  "('l, 'c) Kettle \<Rightarrow> 'c StartInput \<Rightarrow> string \<Rightarrow> string \<Rightarrow> ('l, 'c) system" where
  "boot s inp host uuid =
     \<lparr>kettle = fst (snd (Start s (Some inp) host uuid)), input = inp,
      w_pc = W_RecvQuit, e_pc = E_NewTicker, tickerC = None, crashed = None, events = []\<rparr>"

text \<open>
  The events of the shutdown handshake, in the order of the protocol, and the handshake
  events of a trace.
\<close>

definition protocol :: "'c event list" where
  "protocol =
     [EvRecv QuitCh, EvSend MasterQuitCh, EvRecv MasterQuitCh,
      EvSend MasterDoneCh, EvRecv MasterDoneCh, EvSend DoneCh]"

fun is_handshake :: "'c event \<Rightarrow> bool" where
  "is_handshake (EvSend c) = True"
| "is_handshake (EvRecv c) = (c \<noteq> TickerC)"
| "is_handshake e = False"

definition handshake :: "'c event list \<Rightarrow> 'c event list" where
  "handshake evs = filter is_handshake evs"

text \<open>A work cycle is in flight.\<close>

fun in_flight :: "epc \<Rightarrow> bool" where
  "in_flight (E_Work c p) = True"
| "in_flight pc = False"

text \<open>The engine has not yet finished its first cycle and started the loop.\<close>

fun before_loop :: "epc \<Rightarrow> bool" where
  "before_loop E_NewTicker = True"
| "before_loop (E_Work First p) = True"
| "before_loop E_Go = True"
| "before_loop pc = False"

fun ticker_or_quit_received :: "'c event list \<Rightarrow> bool" where
  "ticker_or_quit_received [] = False"
| "ticker_or_quit_received (EvRecv TickerC # evs) = True"
| "ticker_or_quit_received (EvRecv MasterQuitCh # evs) = True"
| "ticker_or_quit_received (e # evs) = ticker_or_quit_received evs"

text \<open>
  While the engine has not yet started the loop goroutine, nothing has been received from
  the ticker or from \<open>masterQuit\<close>.
\<close>

definition first_inv :: "('l, 'c) system \<Rightarrow> bool" where
  "first_inv \<sigma> = (if before_loop (e_pc \<sigma>) then \<not> ticker_or_quit_received (events \<sigma>) else True)"

section \<open>The shutdown handshake\<close>

text \<open>
  How far the handshake has got, read off the places of the two goroutines: the number of
  handshake events that have happened.
\<close>

fun stage :: "wpc \<Rightarrow> epc \<Rightarrow> nat" where
  "stage W_RecvQuit e = 0"
| "stage W_SendMasterQuit e = 1"
| "stage W_RecvMasterDone E_SendMasterDone = 3"
| "stage W_RecvMasterDone E_Returned = 4"
| "stage W_RecvMasterDone e = 2"
| "stage W_SendDone e = 5"
| "stage W_Returned e = 6"

text \<open>The places the two goroutines can be at together.\<close>

fun consistent :: "wpc \<Rightarrow> epc \<Rightarrow> bool" where
  "consistent W_RecvQuit e = (e \<noteq> E_SendMasterDone \<and> e \<noteq> E_Returned)"
| "consistent W_SendMasterQuit e = (e \<noteq> E_SendMasterDone \<and> e \<noteq> E_Returned)"
| "consistent W_RecvMasterDone e = True"
| "consistent W_SendDone e = (e = E_Returned)"
| "consistent W_Returned e = (e = E_Returned)"

text \<open>
  The invariant of the handshake: the handshake events so far are the first \<open>stage\<close>
  events of the protocol, \<open>masterQuit\<close> holds a value exactly between its send and its
  receive, and so does \<open>masterDone\<close>.
\<close>

definition handshake_inv :: "('l, 'c) system \<Rightarrow> bool" where
  "handshake_inv \<sigma> =
     (consistent (w_pc \<sigma>) (e_pc \<sigma>) \<and>
      handshake (events \<sigma>) = take (stage (w_pc \<sigma>) (e_pc \<sigma>)) protocol \<and>
      masterQuit (kettle \<sigma>) =
        Some \<lparr>cap = 1, buf = (if stage (w_pc \<sigma>) (e_pc \<sigma>) = 2 then [None] else [])\<rparr> \<and>
      masterDone (kettle \<sigma>) =
        Some \<lparr>cap = 1, buf = (if stage (w_pc \<sigma>) (e_pc \<sigma>) = 4 then [None] else [])\<rparr>)"


text \<open>
  A schedule that completes the shutdown from any state: the lock reports an error at
  once, the callback returns, quit is signalled, the \<open>select\<close> takes \<open>masterQuit\<close> and
  the caller takes \<open>done\<close>. \<open>rank\<close> bounds its length. It exists as long as the
  process has not panicked, the lock is not nil, the ticker interval is positive and
  neither \<open>Quit\<close> nor \<open>Done\<close> is nil.
\<close>

fun engine_rank :: "epc \<Rightarrow> nat" where
  "engine_rank E_NewTicker = 5"
| "engine_rank (E_Work First p) = 4"
| "engine_rank E_Go = 3"
| "engine_rank (E_Work Later p) = 3"
| "engine_rank E_Select = 2"
| "engine_rank E_SendMasterDone = 1"
| "engine_rank E_Returned = 0"

fun watcher_rank :: "wpc \<Rightarrow> nat" where
  "watcher_rank W_RecvQuit = 4"
| "watcher_rank W_SendMasterQuit = 3"
| "watcher_rank W_RecvMasterDone = 2"
| "watcher_rank W_SendDone = 1"
| "watcher_rank W_Returned = 0"

definition rank :: "('l, 'c) system \<Rightarrow> nat" where
  "rank \<sigma> = engine_rank (e_pc \<sigma>) + watcher_rank (w_pc \<sigma>)"

fun helpful :: "wpc \<Rightarrow> epc \<Rightarrow> action" where
  "helpful w E_NewTicker = EngineStep"
| "helpful w (E_Work c InLock) = LockReturns (Some (OtherError []))"
| "helpful w (E_Work c InCallback) = MasterReturns None"
| "helpful w E_Go = EngineStep"
| "helpful W_RecvQuit E_Select = QuitArrives"
| "helpful W_SendMasterQuit E_Select = WatcherStep"
| "helpful w E_Select = SelectQuit"
| "helpful w E_SendMasterDone = EngineStep"
| "helpful W_RecvMasterDone E_Returned = WatcherStep"
| "helpful w E_Returned = DoneTaken"

definition healthy :: "('l, 'c) system \<Rightarrow> bool" where
  "healthy \<sigma> =
     (crashed \<sigma> = None \<and> lock (kettle \<sigma>) \<noteq> None \<and>
      0 < sint (Second * tickTime (kettle \<sigma>)) \<and>
      Quit (input \<sigma>) \<noteq> None \<and> Done (input \<sigma>) \<noteq> None)"

fun drive :: "nat \<Rightarrow> ('l, 'c) system \<Rightarrow> action list" where
  "drive 0 \<sigma> = []"
| "drive (Suc n) \<sigma> =
     (if w_pc \<sigma> = W_Returned then []
      else helpful (w_pc \<sigma>) (e_pc \<sigma>) #
             (case step (helpful (w_pc \<sigma>) (e_pc \<sigma>)) \<sigma> of
                None \<Rightarrow> []
              | Some \<sigma>' \<Rightarrow> drive n \<sigma>'))"

section \<open>Observations on runs\<close>

text \<open>
  The results of \<open>Lock()\<close> in the cycles that a run of the loop goes through, in
  order: nothing is taken after the case that makes the goroutine return.
\<close>

fun outcomes :: "select_case list \<Rightarrow> error option list" where
  "outcomes [] = []"
| "outcomes (TickCase r # cs) = r # outcomes cs"
| "outcomes (QuitCase # cs) = []"

text \<open>The arguments of the calls of the callback, and the exit codes, in a list of events.\<close>

fun callback_calls :: "'c event list \<Rightarrow> 'c list" where
  "callback_calls [] = []"
| "callback_calls (EvMaster c # evs) = c # callback_calls evs"
| "callback_calls (e # evs) = callback_calls evs"

fun exit_codes :: "'c event list \<Rightarrow> int list" where
  "exit_codes [] = []"
| "exit_codes (EvExit n # evs) = n # exit_codes evs"
| "exit_codes (e # evs) = exit_codes evs"

text \<open>
  The values carried by the options of each class in an argument list of \<open>New\<close>, in the
  order in which they are passed.
\<close>

fun names_in :: "'l KettleOption list \<Rightarrow> string list" where
  "names_in [] = []"
| "names_in (withName v # opts) = v # names_in opts"
| "names_in (opt # opts) = names_in opts"

fun verboses_in :: "'l KettleOption list \<Rightarrow> bool list" where
  "verboses_in [] = []"
| "verboses_in (withVerbose v # opts) = v # verboses_in opts"
| "verboses_in (opt # opts) = verboses_in opts"

fun lockers_in :: "'l KettleOption list \<Rightarrow> 'l DistLocker option list" where
  "lockers_in [] = []"
| "lockers_in (withDistLocker v # opts) = v # lockers_in opts"
| "lockers_in (opt # opts) = lockers_in opts"

fun tickTimes_in :: "'l KettleOption list \<Rightarrow> int64 list" where
  "tickTimes_in [] = []"
| "tickTimes_in (withTickTime v # opts) = v # tickTimes_in opts"
| "tickTimes_in (opt # opts) = tickTimes_in opts"

section \<open>Sample inputs\<close>

text \<open>
  A \<open>StartInput\<close> with a callback that returns nil, and the Kettle that
  \<open>New(WithVerbose(true), WithDistLocker(l))\<close> followed by \<open>Start\<close> leaves, on host
  \<open>host\<close> with the unique token \<open>uuid\<close>.
\<close>

definition sample_input :: "nat StartInput" where
  "sample_input = \<lparr>Master = Some (\<lambda>c. None), MasterCtx = 7, Quit = Some 0, Done = Some 1\<rparr>"

definition sample_kettle :: "(unit, nat) Kettle" where
  "sample_kettle =
     \<lparr>name = ''kettle'', verbose = True, pool = None, lock = Some (CustomLocker ()),
      master = 0, hostname = ''host__uuid'', startInput = Some sample_input,
      masterQuit = Some (make_chan 1), masterDone = Some (make_chan 1), tickTime = 30\<rparr>"

text \<open>The same input without a callback, and two process environments.\<close>

definition sample_input_nil :: "nat StartInput" where
  "sample_input_nil = \<lparr>Master = None, MasterCtx = 7, Quit = Some 0, Done = Some 1\<rparr>"

definition env_empty :: environ where
  "env_empty = (\<lambda>k. [])"

definition env_redis :: environ where
  "env_redis = (\<lambda>k. if k = ''REDIS_HOST'' then ''localhost:6379'' else [])"

definition env_bad_timeout :: environ where
  "env_bad_timeout =
     (\<lambda>k. if k = ''REDIS_HOST'' then ''localhost:6379''
          else if k = ''REDIS_TIMEOUT_SECONDS'' then ''5s'' else [])"

text \<open>
  The Kettle that \<open>New(WithVerbose(true), WithDistLocker(l))\<close> returns, and a schedule of
  the running system that goes through two cycles and the whole shutdown.
\<close>

definition sample_new :: "(unit, nat) Kettle" where
  "sample_new =
     \<lparr>name = ''kettle'', verbose = True, pool = None, lock = Some (CustomLocker ()),
      master = 0, hostname = [], startInput = None, masterQuit = None, masterDone = None,
      tickTime = 30\<rparr>"

definition sample_schedule :: "action list" where
  "sample_schedule =
     [EngineStep, TickerFires, QuitArrives, LockReturns None, WatcherStep, MasterReturns None,
      EngineStep, SelectTick, LockReturns (Some (OtherError ''held'')), SelectQuit,
      EngineStep, WatcherStep, DoneTaken]"

section \<open>Properties\<close>

subsection \<open>Work cycles\<close>

lemma setMaster_Inr:
  "setMaster s r = Inr (s', evs) \<Longrightarrow>
     s' = s\<lparr>master := (if r = None then 1 else 0)\<rparr> \<and> callback_calls evs = [] \<and> exit_codes evs = []"
  by (auto simp: setMaster_def infof_def split: option.splits if_splits)

lemma setMaster_total:
  "lock s \<noteq> None \<Longrightarrow> \<exists>evs. setMaster s r = Inr (s\<lparr>master := (if r = None then 1 else 0)\<rparr>, evs)"
  by (auto simp: setMaster_def split: option.splits)

lemma callback_calls_append [simp]:
  "callback_calls (xs @ ys) = callback_calls xs @ callback_calls ys"
  by (induction xs rule: callback_calls.induct) simp_all

lemma exit_codes_append [simp]:
  "exit_codes (xs @ ys) = exit_codes xs @ exit_codes ys"
  by (induction xs rule: exit_codes.induct) simp_all

lemma work_Inr:
  assumes "work s r = Inr (s', evs)"
  shows "s' = s\<lparr>master := (if r = None then 1 else 0)\<rparr>" and "exit_codes evs = []"
  using assms
  by (auto simp: work_def isMaster_def split: sum.splits option.splits if_splits prod.splits
           dest!: setMaster_Inr)

lemma work_total:
  assumes "lock s \<noteq> None" and "startInput s \<noteq> None"
  shows "\<exists>evs. work s r = Inr (s\<lparr>master := (if r = None then 1 else 0)\<rparr>, evs)"
  using assms by (auto simp: work_def setMaster_def isMaster_def split: option.splits)

lemma work_calls:
  assumes "work s r = Inr (s', evs)" and "startInput s = Some inp"
  shows "callback_calls evs = (if r = None \<and> Master inp \<noteq> None then [MasterCtx inp] else [])"
  using assms
  by (auto simp: work_def isMaster_def split: sum.splits option.splits if_splits prod.splits
           dest!: setMaster_Inr)

lemma loop_Inr:
  "loop s cs = Inr (s', evs, b) \<Longrightarrow>
     s' = s\<lparr>master := (case outcomes cs of [] \<Rightarrow> master s
                         | _ \<Rightarrow> if last (outcomes cs) = None then 1 else 0)\<rparr> \<and>
     exit_codes evs = []"
proof (induction s cs arbitrary: s' evs b rule: loop.induct)
  case (1 s)
  then show ?case by simp
next
  case (2 s r cs)
  from "2.prems" obtain s1 evs1 evs2 where
    w: "work s r = Inr (s1, evs1)" and l: "loop s1 cs = Inr (s', evs2, b)"
    and e: "evs = EvRecv TickerC # evs1 @ evs2"
    by (auto split: sum.splits prod.splits)
  from work_Inr [OF w] have s1: "s1 = s\<lparr>master := (if r = None then 1 else 0)\<rparr>"
    and x1: "exit_codes evs1 = []" by simp_all
  from "2.IH" [OF w refl l] show ?case using s1 x1 e
    by (auto split: list.splits)
next
  case (3 s cs)
  then show ?case by auto
qed

lemma loop_total:
  "lock s \<noteq> None \<Longrightarrow> startInput s \<noteq> None \<Longrightarrow> \<exists>res. loop s cs = Inr res"
proof (induction cs arbitrary: s)
  case Nil
  then show ?case by auto
next
  case (Cons c cs)
  show ?case
  proof (cases c)
    case (TickCase r)
    from work_total [OF Cons.prems, of r] obtain evs where
      w: "work s r = Inr (s\<lparr>master := (if r = None then 1 else 0)\<rparr>, evs)" by blast
    have "\<exists>res. loop (s\<lparr>master := (if r = None then 1 else 0)\<rparr>) cs = Inr res"
      using Cons.prems by (intro Cons.IH) simp_all
    with w TickCase show ?thesis by (auto split: prod.splits)
  next
    case QuitCase
    then show ?thesis by auto
  qed
qed

lemma engine_Inr:
  assumes "engine s r cs = Inr (s', evs, b)"
  shows "s' = s\<lparr>master := (if last (r # outcomes cs) = None then 1 else 0)\<rparr>"
    and "exit_codes evs = []"
proof -
  from assms obtain s1 evs1 evs2 d where
    w: "work s r = Inr (s1, evs1)" and l: "loop s1 cs = Inr (s', evs2, b)"
    and e: "evs = (EvNewTicker d # evs1 @ [EvGo Loop]) @ evs2"
    by (auto simp: engine_def doMaster_def split: sum.splits prod.splits)
  from work_Inr [OF w] loop_Inr [OF l] e
  show "s' = s\<lparr>master := (if last (r # outcomes cs) = None then 1 else 0)\<rparr>"
    and "exit_codes evs = []"
    by (auto split: list.splits)
qed

lemma engine_total:
  assumes "lock s \<noteq> None" and "startInput s \<noteq> None" and "0 < sint (Second * tickTime s)"
  shows "\<exists>res. engine s r cs = Inr res"
proof -
  from work_total [OF assms(1,2), of r] obtain evs where
    w: "work s r = Inr (s\<lparr>master := (if r = None then 1 else 0)\<rparr>, evs)" by blast
  have "\<exists>res. loop (s\<lparr>master := (if r = None then 1 else 0)\<rparr>) cs = Inr res"
    using assms by (intro loop_total) simp_all
  with w assms(3) show ?thesis
    by (auto simp: engine_def doMaster_def NewTicker_def split: prod.splits)
qed

text \<open>
  Claim C1. Whenever the engine has run its first cycle and any number of further cycles,
  \<open>isMaster\<close> is true exactly when \<open>Lock()\<close> returned nil in the last cycle that
  has completed, and the flag holds 1 or 0 accordingly. A Kettle with a lock, a start
  input and a positive ticker interval runs every such sequence without a panic.
\<close>

theorem master_flag_tracks_last_acquisition:
  "(\<forall>s' evs b. engine s r cs = Inr (s', evs, b) \<longrightarrow>
      isMaster s' = (last (r # outcomes cs) = None) \<and>
      master s' = (if last (r # outcomes cs) = None then 1 else 0)) \<and>
   (lock s \<noteq> None \<and> startInput s \<noteq> None \<and> 0 < sint (Second * tickTime s) \<longrightarrow>
      (\<exists>res. engine s r cs = Inr res))"
proof (intro conjI allI impI)
  fix s' evs b
  assume "engine s r cs = Inr (s', evs, b)"
  from engine_Inr(1) [OF this]
  show "isMaster s' = (last (r # outcomes cs) = None)"
    and "master s' = (if last (r # outcomes cs) = None then 1 else 0)"
    by (simp_all add: isMaster_def)
next
  assume "lock s \<noteq> None \<and> startInput s \<noteq> None \<and> 0 < sint (Second * tickTime s)"
  then show "\<exists>res. engine s r cs = Inr res" using engine_total by blast
qed


theorem master_flag_tracks_last_acquisition_witness:
  "lock sample_kettle \<noteq> None \<and> startInput sample_kettle \<noteq> None \<and>
   0 < sint (Second * tickTime sample_kettle) \<and>
   (\<exists>s' evs b.
      engine sample_kettle None [TickCase None, TickCase (Some (OtherError ''held''))]
        = Inr (s', evs, b) \<and>
      \<not> isMaster s' \<and> master s' = 0)"
  using master_flag_tracks_last_acquisition
          [of sample_kettle None "[TickCase None, TickCase (Some (OtherError ''held''))]"]
  by (auto simp: sample_kettle_def Second_def)

subsection \<open>Options and construction\<close>

lemma apply_opts_untouched:
  "pool (apply_opts opts s) = pool s \<and> master (apply_opts opts s) = master s \<and>
   hostname (apply_opts opts s) = hostname s \<and> startInput (apply_opts opts s) = startInput s \<and>
   masterQuit (apply_opts opts s) = masterQuit s \<and> masterDone (apply_opts opts s) = masterDone s"
proof (induction opts arbitrary: s)
  case Nil
  show ?case by simp
next
  case (Cons opt opts)
  show ?case by (cases opt) (simp_all add: Cons.IH)
qed

lemma New_cases:
  assumes "(New opts env :: error + ('l, 'c) Kettle) = Inr k"
  shows "k = apply_opts opts new_defaults \<and> lock k \<noteq> None \<or>
         (\<exists>p. NewRedisPool env = Inr p \<and> lock (apply_opts opts (new_defaults :: ('l, 'c) Kettle)) = None \<and>
              k = (apply_opts opts new_defaults)
                    \<lparr>pool := Some p,
                     lock := Some (RedsyncMutex (name (apply_opts opts (new_defaults :: ('l, 'c) Kettle)) @ ''-distlocker'')
                                  (Second * tickTime (apply_opts opts (new_defaults :: ('l, 'c) Kettle))) [p])\<rparr>)"
  using assms by (auto simp: New_def Let_def split: if_splits sum.splits)

lemma New_Inr_fields:
  assumes "(New opts env :: error + ('l, 'c) Kettle) = Inr k"
  shows "name k = name (apply_opts opts (new_defaults :: ('l, 'c) Kettle))"
    and "verbose k = verbose (apply_opts opts (new_defaults :: ('l, 'c) Kettle))"
    and "tickTime k = tickTime (apply_opts opts (new_defaults :: ('l, 'c) Kettle))"
    and "lock k \<noteq> None"
    and "master k = 0"
    and "startInput k = None"
  using New_cases [OF assms] apply_opts_untouched [of opts "new_defaults :: ('l, 'c) Kettle"]
  by (auto simp: new_defaults_def)

lemma New_custom:
  "lock (apply_opts opts (new_defaults :: ('l, 'c) Kettle)) \<noteq> None \<Longrightarrow>
     (New opts env :: error + ('l, 'c) Kettle) = Inr (apply_opts opts new_defaults)"
  by (auto simp: New_def Let_def)

lemma New_default_fails:
  "lock (apply_opts opts (new_defaults :: ('l, 'c) Kettle)) = None \<Longrightarrow> NewRedisPool env = Inl e \<Longrightarrow>
     (New opts env :: error + ('l, 'c) Kettle) = Inl e"
  by (simp add: New_def Let_def)

lemma New_default_ok:
  "lock (apply_opts opts (new_defaults :: ('l, 'c) Kettle)) = None \<Longrightarrow> NewRedisPool env = Inr p \<Longrightarrow>
     (New opts env :: error + ('l, 'c) Kettle) =
       Inr ((apply_opts opts new_defaults)
              \<lparr>pool := Some p,
               lock := Some (RedsyncMutex (name (apply_opts opts (new_defaults :: ('l, 'c) Kettle)) @ ''-distlocker'')
                                          (Second * tickTime (apply_opts opts (new_defaults :: ('l, 'c) Kettle))) [p])\<rparr>)"
  by (simp add: New_def Let_def)

lemma Second_mult_exact:
  assumes "- 9223372036 \<le> sint (t :: int64)" and "sint t \<le> 9223372036"
  shows "sint (Second * t) = 1000000000 * sint t"
proof -
  have "sint (Second * t) = signed_take_bit 63 (1000000000 * sint t)"
    by (simp add: Second_def sint_word_ariths)
  also have "\<dots> = 1000000000 * sint t"
    using assms by (intro signed_take_bit_int_eq_self) simp_all
  finally show ?thesis .
qed


lemma apply_opts_fields:
  "name (apply_opts opts s) = last (name s # names_in opts) \<and>
   verbose (apply_opts opts s) = last (verbose s # verboses_in opts) \<and>
   lock (apply_opts opts s) = last (lock s # lockers_in opts) \<and>
   tickTime (apply_opts opts s) = last (tickTime s # tickTimes_in opts)"
proof (induction opts arbitrary: s)
  case Nil
  show ?case by simp
next
  case (Cons opt opts)
  show ?case by (cases opt) (simp_all add: Cons.IH)
qed

lemma apply_opts_shape:
  "apply_opts opts (new_defaults :: ('l, 'c) Kettle) =
     new_defaults\<lparr>name := last (''kettle'' # names_in opts),
                  verbose := last (False # verboses_in opts),
                  lock := last (None # lockers_in opts),
                  tickTime := last (30 # tickTimes_in opts)\<rparr>"
  using apply_opts_fields [of opts "new_defaults :: ('l, 'c) Kettle"]
        apply_opts_untouched [of opts "new_defaults :: ('l, 'c) Kettle"]
  by (intro Kettle.equality) (simp_all add: new_defaults_def del: last.simps)

lemma New_eq:
  "(New opts env :: error + ('l, 'c) Kettle) =
     (case last (None # lockers_in opts) of
        Some l \<Rightarrow>
          Inr (new_defaults\<lparr>name := last (''kettle'' # names_in opts),
                            verbose := last (False # verboses_in opts),
                            lock := Some l,
                            tickTime := last (30 # tickTimes_in opts)\<rparr>)
      | None \<Rightarrow>
          (case NewRedisPool env of
             Inl e \<Rightarrow> Inl e
           | Inr p \<Rightarrow>
               Inr (new_defaults\<lparr>name := last (''kettle'' # names_in opts),
                                 verbose := last (False # verboses_in opts),
                                 pool := Some p,
                                 lock := Some (RedsyncMutex
                                          (last (''kettle'' # names_in opts) @ ''-distlocker'')
                                          (Second * last (30 # tickTimes_in opts)) [p]),
                                 tickTime := last (30 # tickTimes_in opts)\<rparr>)))"
  unfolding New_def Let_def apply_opts_shape
  by (simp add: new_defaults_def del: last.simps split: option.splits sum.splits)

text \<open>
  Claim C9. After the options loop every configurable field holds the value of the last
  option of its class in the argument list, or its previous value when there is none; no
  option touches another field. For every list of options, \<open>New\<close> returns these values:
  when the last \<open>WithDistLocker\<close> carries a locker, the Kettle it returns is the default
  one with exactly these four fields set; otherwise it is that Kettle with the default pool
  and lock whenever the default backend can be built, and \<open>New\<close> fails only when it cannot.
  With no options the returned Kettle has name \<open>kettle\<close> and tickTime 30.
\<close>

theorem options_last_writer_wins:
  fixes s :: "('l, 'c) Kettle"
  shows
  "name (apply_opts opts s) = last (name s # names_in opts) \<and>
   verbose (apply_opts opts s) = last (verbose s # verboses_in opts) \<and>
   lock (apply_opts opts s) = last (lock s # lockers_in opts) \<and>
   tickTime (apply_opts opts s) = last (tickTime s # tickTimes_in opts) \<and>
   pool (apply_opts opts s) = pool s \<and> master (apply_opts opts s) = master s \<and>
   hostname (apply_opts opts s) = hostname s \<and>
   startInput (apply_opts opts s) = startInput s \<and>
   masterQuit (apply_opts opts s) = masterQuit s \<and>
   masterDone (apply_opts opts s) = masterDone s \<and>
   (\<forall>k. (New opts env :: error + ('l, 'c) Kettle) = Inr k \<longrightarrow>
      name k = last (''kettle'' # names_in opts) \<and>
      verbose k = last (False # verboses_in opts) \<and>
      tickTime k = last (30 # tickTimes_in opts)) \<and>
   (\<forall>k. (New [] env :: error + ('l, 'c) Kettle) = Inr k \<longrightarrow>
      name k = ''kettle'' \<and> tickTime k = 30) \<and>
   (\<forall>p. NewRedisPool env = Inr p \<longrightarrow>
      (\<exists>k. (New [] env :: error + ('l, 'c) Kettle) = Inr k)) \<and>
   (\<forall>l. last (None # lockers_in opts) = Some l \<longrightarrow>
      (New opts env :: error + ('l, 'c) Kettle) =
        Inr (new_defaults\<lparr>name := last (''kettle'' # names_in opts),
                          verbose := last (False # verboses_in opts),
                          lock := Some l,
                          tickTime := last (30 # tickTimes_in opts)\<rparr>)) \<and>
   (\<forall>p. last (None # lockers_in opts) = None \<and> NewRedisPool env = Inr p \<longrightarrow>
      (New opts env :: error + ('l, 'c) Kettle) =
        Inr (new_defaults\<lparr>name := last (''kettle'' # names_in opts),
                          verbose := last (False # verboses_in opts),
                          pool := Some p,
                          lock := Some (RedsyncMutex
                                   (last (''kettle'' # names_in opts) @ ''-distlocker'')
                                   (Second * last (30 # tickTimes_in opts)) [p]),
                          tickTime := last (30 # tickTimes_in opts)\<rparr>)) \<and>
   (\<forall>p. NewRedisPool env = Inr p \<longrightarrow>
      (\<exists>k. (New opts env :: error + ('l, 'c) Kettle) = Inr k \<and>
           name k = last (''kettle'' # names_in opts) \<and>
           verbose k = last (False # verboses_in opts) \<and>
           tickTime k = last (30 # tickTimes_in opts))) \<and>
   (\<forall>e. ((New opts env :: error + ('l, 'c) Kettle) = Inl e) =
         (last (None # lockers_in opts) = None \<and> NewRedisPool env = Inl e))"
proof -
  have new: "name k = last (''kettle'' # names_in os) \<and>
      verbose k = last (False # verboses_in os) \<and>
      tickTime k = last (30 # tickTimes_in os)"
    if "(New os env :: error + ('l, 'c) Kettle) = Inr k" for os k
    using New_Inr_fields(1-3) [OF that]
          apply_opts_fields [of os "new_defaults :: ('l, 'c) Kettle"]
    by (simp add: new_defaults_def)
  have ex: "\<exists>k. (New [] env :: error + ('l, 'c) Kettle) = Inr k" if "NewRedisPool env = Inr p" for p
    using that by (simp add: New_def new_defaults_def)
  have custom: "(New opts env :: error + ('l, 'c) Kettle) =
        Inr (new_defaults\<lparr>name := last (''kettle'' # names_in opts),
                          verbose := last (False # verboses_in opts),
                          lock := Some l,
                          tickTime := last (30 # tickTimes_in opts)\<rparr>)"
    if "last (None # lockers_in opts) = Some l" for l
    using that by (simp add: New_eq del: last.simps)
  have dflt: "(New opts env :: error + ('l, 'c) Kettle) =
        Inr (new_defaults\<lparr>name := last (''kettle'' # names_in opts),
                          verbose := last (False # verboses_in opts),
                          pool := Some p,
                          lock := Some (RedsyncMutex
                                   (last (''kettle'' # names_in opts) @ ''-distlocker'')
                                   (Second * last (30 # tickTimes_in opts)) [p]),
                          tickTime := last (30 # tickTimes_in opts)\<rparr>)"
    if "last (None # lockers_in opts) = None \<and> NewRedisPool env = Inr p" for p
    using that by (simp add: New_eq del: last.simps)
  have always: "\<exists>k. (New opts env :: error + ('l, 'c) Kettle) = Inr k \<and>
           name k = last (''kettle'' # names_in opts) \<and>
           verbose k = last (False # verboses_in opts) \<and>
           tickTime k = last (30 # tickTimes_in opts)"
    if "NewRedisPool env = Inr p" for p
    using that
    by (cases "last (None # lockers_in opts)") (simp_all add: New_eq del: last.simps)
  have fails: "((New opts env :: error + ('l, 'c) Kettle) = Inl e) =
         (last (None # lockers_in opts) = None \<and> NewRedisPool env = Inl e)" for e
    by (cases "last (None # lockers_in opts)"; cases "NewRedisPool env")
       (simp_all add: New_eq del: last.simps)
  from apply_opts_fields [of opts s] apply_opts_untouched [of opts s]
  have a: "name (apply_opts opts s) = last (name s # names_in opts) \<and>
   verbose (apply_opts opts s) = last (verbose s # verboses_in opts) \<and>
   lock (apply_opts opts s) = last (lock s # lockers_in opts) \<and>
   tickTime (apply_opts opts s) = last (tickTime s # tickTimes_in opts) \<and>
   pool (apply_opts opts s) = pool s \<and> master (apply_opts opts s) = master s \<and>
   hostname (apply_opts opts s) = hostname s \<and>
   startInput (apply_opts opts s) = startInput s \<and>
   masterQuit (apply_opts opts s) = masterQuit s \<and>
   masterDone (apply_opts opts s) = masterDone s" by blast
  from new [of opts] new [of "[]"] ex
  have b: "(\<forall>k. (New opts env :: error + ('l, 'c) Kettle) = Inr k \<longrightarrow>
      name k = last (''kettle'' # names_in opts) \<and>
      verbose k = last (False # verboses_in opts) \<and>
      tickTime k = last (30 # tickTimes_in opts)) \<and>
   (\<forall>k. (New [] env :: error + ('l, 'c) Kettle) = Inr k \<longrightarrow>
      name k = ''kettle'' \<and> tickTime k = 30) \<and>
   (\<forall>p. NewRedisPool env = Inr p \<longrightarrow>
      (\<exists>k. (New [] env :: error + ('l, 'c) Kettle) = Inr k))" by simp
  from a b custom dflt always fails show ?thesis by blast
qed

theorem options_last_writer_wins_witness:
  "name (apply_opts [WithName ''a'', WithTickTime 5, WithName ''b'', WithTickTime 7]
           (new_defaults :: (unit, nat) Kettle)) = ''b'' \<and>
   tickTime (apply_opts [WithName ''a'', WithTickTime 5, WithName ''b'', WithTickTime 7]
           (new_defaults :: (unit, nat) Kettle)) = 7 \<and>
   (\<exists>p. NewRedisPool env_redis = Inr p \<and>
     last (None # lockers_in [WithName ''a'', WithTickTime 5, WithName ''b'', WithVerbose True,
                              WithTickTime 7 :: unit KettleOption]) = None \<and>
     (New [WithName ''a'', WithTickTime 5, WithName ''b'', WithVerbose True, WithTickTime 7]
          env_redis :: error + (unit, nat) Kettle) =
       Inr \<lparr>name = ''b'', verbose = True, pool = Some p,
            lock = Some (RedsyncMutex ''b-distlocker'' 7000000000 [p]), master = 0,
            hostname = [], startInput = None, masterQuit = None, masterDone = None,
            tickTime = 7\<rparr>) \<and>
   (\<exists>k. (New [] env_redis :: error + (unit, nat) Kettle) = Inr k \<and>
         name k = ''kettle'' \<and> tickTime k = 30) \<and>
   last (None # lockers_in [WithTickTime 5, WithDistLocker None, WithName ''a'',
                            WithDistLocker (Some (CustomLocker ())), WithTickTime 7])
     = Some (CustomLocker ()) \<and>
   (New [WithTickTime 5, WithDistLocker None, WithName ''a'',
         WithDistLocker (Some (CustomLocker ())), WithTickTime 7]
        env_empty :: error + (unit, nat) Kettle) =
     Inr \<lparr>name = ''a'', verbose = False, pool = None, lock = Some (CustomLocker ()),
          master = 0, hostname = [], startInput = None, masterQuit = None, masterDone = None,
          tickTime = 7\<rparr> \<and>
   (New [WithName ''a'', WithDistLocker None] env_empty :: error + (unit, nat) Kettle)
     = Inl RedisHostMustBeSet"
proof -
  obtain p where p: "NewRedisPool env_redis = Inr p"
    by (simp add: NewRedisPool_def Getenv_def env_redis_def Let_def)
  have e: "NewRedisPool env_empty = Inl RedisHostMustBeSet"
    by (simp add: NewRedisPool_def Getenv_def env_empty_def)
  have 1: "name (apply_opts [WithName ''a'', WithTickTime 5, WithName ''b'', WithTickTime 7]
           (new_defaults :: (unit, nat) Kettle)) = ''b'' \<and>
     tickTime (apply_opts [WithName ''a'', WithTickTime 5, WithName ''b'', WithTickTime 7]
           (new_defaults :: (unit, nat) Kettle)) = 7"
    using options_last_writer_wins
            [of "[WithName ''a'', WithTickTime 5, WithName ''b'', WithTickTime 7]"
                "new_defaults :: (unit, nat) Kettle" env_redis]
    by (simp add: WithName_def WithTickTime_def)
  have 2: "last (None # lockers_in [WithName ''a'', WithTickTime 5, WithName ''b'', WithVerbose True,
                              WithTickTime 7 :: unit KettleOption]) = None"
    by (simp add: WithName_def WithTickTime_def WithVerbose_def)
  have 3: "(New [WithName ''a'', WithTickTime 5, WithName ''b'', WithVerbose True, WithTickTime 7]
          env_redis :: error + (unit, nat) Kettle) =
       Inr \<lparr>name = ''b'', verbose = True, pool = Some p,
            lock = Some (RedsyncMutex ''b-distlocker'' 7000000000 [p]), master = 0,
            hostname = [], startInput = None, masterQuit = None, masterDone = None,
            tickTime = 7\<rparr>"
    using options_last_writer_wins
            [where ?'l = unit and ?'c = nat,
             of "[WithName ''a'', WithTickTime 5, WithName ''b'', WithVerbose True, WithTickTime 7]"
                new_defaults env_redis]
          p
    by (simp add: WithName_def WithTickTime_def WithVerbose_def new_defaults_def Second_def)
  have 4: "\<exists>k. (New [] env_redis :: error + (unit, nat) Kettle) = Inr k \<and>
         name k = ''kettle'' \<and> tickTime k = 30"
    using options_last_writer_wins
            [where ?'l = unit and ?'c = nat, of "[]" new_defaults env_redis] p
    by simp
  have 5: "last (None # lockers_in [WithTickTime 5, WithDistLocker None, WithName ''a'',
                            WithDistLocker (Some (CustomLocker ())), WithTickTime 7])
     = Some (CustomLocker ())"
    by (simp add: WithName_def WithTickTime_def WithDistLocker_def)
  have 6: "(New [WithTickTime 5, WithDistLocker None, WithName ''a'',
         WithDistLocker (Some (CustomLocker ())), WithTickTime 7]
        env_empty :: error + (unit, nat) Kettle) =
     Inr \<lparr>name = ''a'', verbose = False, pool = None, lock = Some (CustomLocker ()),
          master = 0, hostname = [], startInput = None, masterQuit = None, masterDone = None,
          tickTime = 7\<rparr>"
    using options_last_writer_wins
            [where ?'l = unit and ?'c = nat,
             of "[WithTickTime 5, WithDistLocker None, WithName ''a'',
                  WithDistLocker (Some (CustomLocker ())), WithTickTime 7]"
                new_defaults env_empty]
    by (simp add: WithName_def WithTickTime_def WithDistLocker_def new_defaults_def)
  have 7: "(New [WithName ''a'', WithDistLocker None] env_empty :: error + (unit, nat) Kettle)
     = Inl RedisHostMustBeSet"
    using options_last_writer_wins
            [where ?'l = unit and ?'c = nat,
             of "[WithName ''a'', WithDistLocker None]" new_defaults env_empty]
          e
    by (simp add: WithName_def WithDistLocker_def)
  from 1 2 3 4 5 6 7 p show ?thesis by blast
qed

text \<open>
  Claim C4. \<open>Start\<close> with a nil input returns the error, starts no goroutine and leaves
  the Kettle as it was; with any non-nil input it returns nil and starts the watcher and
  the engine.
\<close>

theorem Start_nil_input:
  "Start s None host uuid = (Some InputCannotBeNil, s, []) \<and>
   fst (Start s (Some i) host uuid) = None \<and>
   snd (snd (Start s (Some i) host uuid)) = [Watcher, DoMaster]"
  by (simp add: Start_def)


lemma NewRedisPool_no_host:
  "Getenv env ''REDIS_HOST'' = [] \<Longrightarrow> NewRedisPool env = Inl RedisHostMustBeSet"
  by (simp add: NewRedisPool_def)

lemma NewRedisPool_bad_timeout:
  "Getenv env ''REDIS_HOST'' \<noteq> [] \<Longrightarrow> Getenv env ''REDIS_TIMEOUT_SECONDS'' \<noteq> [] \<Longrightarrow>
   Atoi (Getenv env ''REDIS_TIMEOUT_SECONDS'') = Inl e \<Longrightarrow> NewRedisPool env = Inl e"
  by (simp add: NewRedisPool_def Let_def)

lemma NewRedisPool_Inl:
  "NewRedisPool env = Inl e \<Longrightarrow>
     Getenv env ''REDIS_HOST'' = [] \<and> e = RedisHostMustBeSet \<or>
     Getenv env ''REDIS_HOST'' \<noteq> [] \<and> Getenv env ''REDIS_TIMEOUT_SECONDS'' \<noteq> [] \<and>
       Atoi (Getenv env ''REDIS_TIMEOUT_SECONDS'') = Inl e"
  by (auto simp: NewRedisPool_def Let_def split: if_splits sum.splits)

text \<open>
  Claim C8. \<open>NewRedisPool\<close> fails when \<open>REDIS_HOST\<close> is empty, and when the host is set
  and \<open>REDIS_TIMEOUT_SECONDS\<close> is set to a text that \<open>Atoi\<close> rejects; whenever
  \<open>NewRedisPool\<close> fails and no locker was configured, \<open>New\<close> returns that very error
  and no Kettle.
\<close>

theorem default_backend_errors_are_synchronous:
  "(Getenv env ''REDIS_HOST'' = [] \<longrightarrow> NewRedisPool env = Inl RedisHostMustBeSet) \<and>
   (Getenv env ''REDIS_HOST'' \<noteq> [] \<and> Getenv env ''REDIS_TIMEOUT_SECONDS'' \<noteq> [] \<and>
    Atoi (Getenv env ''REDIS_TIMEOUT_SECONDS'') = Inl e \<longrightarrow> NewRedisPool env = Inl e) \<and>
   (NewRedisPool env = Inl e' \<and> last (None # lockers_in opts) = None \<longrightarrow>
      (New opts env :: error + ('l, 'c) Kettle) = Inl e')"
proof -
  have "lock (apply_opts opts (new_defaults :: ('l, 'c) Kettle)) = last (None # lockers_in opts)"
    using apply_opts_fields [of opts "new_defaults :: ('l, 'c) Kettle"]
    by (simp add: new_defaults_def)
  then show ?thesis
    using NewRedisPool_no_host [of env] NewRedisPool_bad_timeout [of env e]
          New_default_fails [where ?'l = 'l and ?'c = 'c, of opts env e']
    by auto
qed

theorem default_backend_errors_are_synchronous_witness:
  "Getenv env_empty ''REDIS_HOST'' = [] \<and>
   NewRedisPool env_empty = Inl RedisHostMustBeSet \<and>
   last (None # lockers_in [WithName ''n'' :: unit KettleOption]) = None \<and>
   (New [WithName ''n''] env_empty :: error + (unit, nat) Kettle) = Inl RedisHostMustBeSet \<and>
   Getenv env_bad_timeout ''REDIS_HOST'' \<noteq> [] \<and>
   Getenv env_bad_timeout ''REDIS_TIMEOUT_SECONDS'' \<noteq> [] \<and>
   Atoi (Getenv env_bad_timeout ''REDIS_TIMEOUT_SECONDS'') = Inl (NumError ''5s'') \<and>
   NewRedisPool env_bad_timeout = Inl (NumError ''5s'') \<and>
   (New [] env_bad_timeout :: error + (unit, nat) Kettle) = Inl (NumError ''5s'')"
proof -
  have a: "Atoi ''5s'' = Inl (NumError ''5s'')"
    by (simp add: Atoi_def Let_def is_digit_def)
  show ?thesis
    using default_backend_errors_are_synchronous
            [where ?'l = unit and ?'c = nat, of env_empty "NumError ''5s''" RedisHostMustBeSet "[WithName ''n'']"]
          default_backend_errors_are_synchronous
            [where ?'l = unit and ?'c = nat, of env_bad_timeout "NumError ''5s''" "NumError ''5s''" "[]"]
          a
    by (simp add: Getenv_def env_empty_def env_bad_timeout_def WithName_def)
qed

text \<open>
  Claim C7, as stated, fails: \<open>WithDistLocker(nil)\<close> is a supplied option, yet \<open>New\<close>
  still builds the default backend, and fails when \<open>REDIS_HOST\<close> is not set.
\<close>

theorem WithDistLocker_nil_counterexample:
  "withDistLocker None \<in> set [WithDistLocker None :: unit KettleOption] \<and>
   (New [WithDistLocker None] env_empty :: error + (unit, nat) Kettle) = Inl RedisHostMustBeSet"
  by (simp add: WithDistLocker_def New_def new_defaults_def NewRedisPool_def Getenv_def
                env_empty_def)

text \<open>
  Claim C7, amended. When the last \<open>WithDistLocker\<close> option (if any) carries nil,
  \<open>New\<close> builds the default pool and a mutex named by the node name followed by
  \<open>-distlocker\<close>, with expiry \<open>time.Second * time.Duration(tickTime)\<close>, which is exactly
  tickTime seconds whenever that fits a \<open>Duration\<close>. When the last \<open>WithDistLocker\<close>
  option carries a locker, \<open>New\<close> returns the configured Kettle with that locker and no
  pool, whatever the environment.
\<close>

theorem default_lock_synthesis:
  "(last (None # lockers_in opts) = None \<and> NewRedisPool env = Inr p \<longrightarrow>
      (\<exists>k. (New opts env :: error + ('l, 'c) Kettle) = Inr k \<and>
           pool k = Some p \<and>
           lock k = Some (RedsyncMutex (name k @ ''-distlocker'') (Second * tickTime k) [p]) \<and>
           name k = last (''kettle'' # names_in opts) \<and>
           tickTime k = last (30 # tickTimes_in opts))) \<and>
   (- 9223372036 \<le> sint t \<and> sint t \<le> 9223372036 \<longrightarrow>
      sint (Second * t) = 1000000000 * sint t) \<and>
   (last (None # lockers_in opts) = Some l \<longrightarrow>
      (\<exists>k. (New opts env :: error + ('l, 'c) Kettle) = Inr k \<and>
           k = apply_opts opts new_defaults \<and> lock k = Some l \<and> pool k = None))"
proof -
  let ?s = "apply_opts opts (new_defaults :: ('l, 'c) Kettle)"
  have f: "lock ?s = last (None # lockers_in opts)"
    "name ?s = last (''kettle'' # names_in opts)"
    "tickTime ?s = last (30 # tickTimes_in opts)"
    "pool ?s = None"
    using apply_opts_fields [of opts "new_defaults :: ('l, 'c) Kettle"]
          apply_opts_untouched [of opts "new_defaults :: ('l, 'c) Kettle"]
    by (simp_all add: new_defaults_def)
  have 1: "\<exists>k. (New opts env :: error + ('l, 'c) Kettle) = Inr k \<and>
           pool k = Some p \<and>
           lock k = Some (RedsyncMutex (name k @ ''-distlocker'') (Second * tickTime k) [p]) \<and>
           name k = last (''kettle'' # names_in opts) \<and>
           tickTime k = last (30 # tickTimes_in opts)"
    if "last (None # lockers_in opts) = None" "NewRedisPool env = Inr p"
    using New_default_ok [where ?'l = 'l and ?'c = 'c, of opts env p] that f by (simp del: last.simps)
  have 2: "\<exists>k. (New opts env :: error + ('l, 'c) Kettle) = Inr k \<and>
           k = apply_opts opts new_defaults \<and> lock k = Some l \<and> pool k = None"
    if "last (None # lockers_in opts) = Some l"
    using New_custom [where ?'l = 'l and ?'c = 'c, of opts env] that f by (simp del: last.simps)
  show ?thesis using 1 2 Second_mult_exact [of t] by blast
qed

theorem default_lock_synthesis_witness:
  "last (None # lockers_in [WithName ''n'' :: unit KettleOption]) = None \<and>
   (\<exists>p. NewRedisPool env_redis = Inr p \<and>
     (\<exists>k. (New [WithName ''n''] env_redis :: error + (unit, nat) Kettle) = Inr k \<and>
          lock k = Some (RedsyncMutex ''n-distlocker'' 30000000000 [p]))) \<and>
   - 9223372036 \<le> sint (30 :: int64) \<and> sint (30 :: int64) \<le> 9223372036 \<and>
   sint (Second * 30) = 30000000000 \<and>
   last (None # lockers_in [WithDistLocker (Some (CustomLocker ()))]) = Some (CustomLocker ()) \<and>
   (\<exists>k. (New [WithDistLocker (Some (CustomLocker ()))] env_empty :: error + (unit, nat) Kettle)
           = Inr k \<and> lock k = Some (CustomLocker ()) \<and> pool k = None)"
proof -
  obtain p where p: "NewRedisPool env_redis = Inr p"
    by (simp add: NewRedisPool_def Getenv_def env_redis_def Let_def)
  show ?thesis
    using default_lock_synthesis
            [where ?'l = unit and ?'c = nat, of "[WithName ''n'']" env_redis p 30 "CustomLocker ()"]
          default_lock_synthesis
            [where ?'l = unit and ?'c = nat, of "[WithDistLocker (Some (CustomLocker ()))]" env_empty p 30 "CustomLocker ()"]
          p
    by (auto simp: WithName_def WithDistLocker_def Second_def)
qed

subsection \<open>Callbacks, errors and exits\<close>

lemma loop_calls:
  assumes "startInput s = Some inp"
  shows "loop s cs = Inr (s', evs, b) \<Longrightarrow>
     callback_calls evs =
       (if Master inp = None then []
        else replicate (length (filter (\<lambda>r. r = None) (outcomes cs))) (MasterCtx inp))"
  using assms
proof (induction s cs arbitrary: s' evs b rule: loop.induct)
  case (1 s)
  then show ?case by simp
next
  case (2 s r cs)
  from "2.prems" obtain s1 evs1 evs2 where
    w: "work s r = Inr (s1, evs1)" and l: "loop s1 cs = Inr (s', evs2, b)"
    and e: "evs = EvRecv TickerC # evs1 @ evs2"
    by (auto split: sum.splits prod.splits)
  from work_Inr(1) [OF w] "2.prems"(2) have s1: "startInput s1 = Some inp" by simp
  from "2.IH" [OF w refl l s1] work_calls [OF w "2.prems"(2)] e
  show ?case by auto
next
  case (3 s cs)
  then show ?case by auto
qed

lemma work_callback_irrelevant:
  assumes "startInput s = Some inp" and "Master inp = Some f"
  shows "work (s\<lparr>startInput := Some (inp\<lparr>Master := Some g\<rparr>)\<rparr>) r =
         map_sum id (\<lambda>(s', evs). (s'\<lparr>startInput := Some (inp\<lparr>Master := Some g\<rparr>)\<rparr>, evs)) (work s r)"
  using assms
  by (auto simp: work_def setMaster_def isMaster_def infof_def split: option.splits)

lemma loop_callback_irrelevant:
  assumes "startInput s = Some inp" and "Master inp = Some f"
  shows "loop (s\<lparr>startInput := Some (inp\<lparr>Master := Some g\<rparr>)\<rparr>) cs =
         map_sum id (\<lambda>(s', evs, b). (s'\<lparr>startInput := Some (inp\<lparr>Master := Some g\<rparr>)\<rparr>, evs, b))
           (loop s cs)"
  using assms
proof (induction s cs rule: loop.induct)
  case (1 s)
  then show ?case by simp
next
  case (2 s r cs)
  show ?case
  proof (cases "work s r")
    case (Inl p)
    then show ?thesis using work_callback_irrelevant [OF "2.prems", of g r] by simp
  next
    case (Inr res)
    obtain s1 evs1 where res: "res = (s1, evs1)" by (cases res)
    from work_Inr(1) [OF Inr [unfolded res]] "2.prems"(1)
    have s1: "startInput s1 = Some inp" by simp
    have ih: "loop (s1\<lparr>startInput := Some (inp\<lparr>Master := Some g\<rparr>)\<rparr>) cs =
         map_sum id (\<lambda>(s', evs, b). (s'\<lparr>startInput := Some (inp\<lparr>Master := Some g\<rparr>)\<rparr>, evs, b))
           (loop s1 cs)"
      using "2.IH" [OF Inr [unfolded res] refl s1 "2.prems"(2)] .
    show ?thesis
      using work_callback_irrelevant [OF "2.prems", of g r] Inr res ih
      by (cases "loop s1 cs") auto
  qed
next
  case (3 s cs)
  then show ?case by simp
qed


text \<open>
  Claim C2, as stated, fails: with a nil \<open>Master\<close> a cycle whose acquisition succeeds
  invokes nothing.
\<close>

theorem nil_callback_counterexample:
  "work (sample_kettle\<lparr>startInput := Some sample_input_nil\<rparr>) None =
     Inr (sample_kettle\<lparr>startInput := Some sample_input_nil, master := 1\<rparr>,
          [EvLock, EvLog Info ''[kettle] host__uuid set to master''])"
  by (simp add: work_def setMaster_def isMaster_def infof_def sample_kettle_def
                sample_input_nil_def)

text \<open>
  Claim C2, amended. In a work cycle the callback is invoked exactly once, with
  \<open>MasterCtx\<close>, when \<open>Lock()\<close> returned nil and \<open>Master\<close> is not nil, and not at all
  otherwise; over a run of the loop it is invoked once per successful cycle. Replacing
  the callback by one that returns anything else changes neither the flag, nor the events,
  nor whether the loop has returned, for a single cycle and for any run.
\<close>

theorem callback_once_per_successful_cycle:
  "(lock s \<noteq> None \<and> startInput s = Some inp \<longrightarrow>
      (\<exists>s' evs. work s r = Inr (s', evs) \<and>
         callback_calls evs =
           (if r = None \<and> Master inp \<noteq> None then [MasterCtx inp] else [])) \<and>
      (\<exists>s' evs b. loop s cs = Inr (s', evs, b) \<and>
         callback_calls evs =
           (if Master inp = None then []
            else replicate (length (filter (\<lambda>r. r = None) (outcomes cs))) (MasterCtx inp)))) \<and>
   (startInput s = Some inp \<and> Master inp = Some f \<longrightarrow>
      work (s\<lparr>startInput := Some (inp\<lparr>Master := Some g\<rparr>)\<rparr>) r =
        map_sum id (\<lambda>(s', evs). (s'\<lparr>startInput := Some (inp\<lparr>Master := Some g\<rparr>)\<rparr>, evs))
          (work s r) \<and>
      loop (s\<lparr>startInput := Some (inp\<lparr>Master := Some g\<rparr>)\<rparr>) cs =
        map_sum id (\<lambda>(s', evs, b). (s'\<lparr>startInput := Some (inp\<lparr>Master := Some g\<rparr>)\<rparr>, evs, b))
          (loop s cs))"
proof (intro conjI impI)
  assume a: "lock s \<noteq> None \<and> startInput s = Some inp"
  then obtain evs where w: "work s r = Inr (s\<lparr>master := (if r = None then 1 else 0)\<rparr>, evs)"
    using work_total [of s r] by auto
  from work_calls [OF w] a w
  show "\<exists>s' evs. work s r = Inr (s', evs) \<and>
         callback_calls evs =
           (if r = None \<and> Master inp \<noteq> None then [MasterCtx inp] else [])"
    by blast
  from a obtain res where "loop s cs = Inr res" using loop_total [of s cs] by auto
  then obtain s' evs' b where l: "loop s cs = Inr (s', evs', b)" by (cases res) auto
  from loop_calls [OF _ l] a l
  show "\<exists>s' evs b. loop s cs = Inr (s', evs, b) \<and>
         callback_calls evs =
           (if Master inp = None then []
            else replicate (length (filter (\<lambda>r. r = None) (outcomes cs))) (MasterCtx inp))"
    by blast
next
  assume "startInput s = Some inp \<and> Master inp = Some f"
  then show "work (s\<lparr>startInput := Some (inp\<lparr>Master := Some g\<rparr>)\<rparr>) r =
        map_sum id (\<lambda>(s', evs). (s'\<lparr>startInput := Some (inp\<lparr>Master := Some g\<rparr>)\<rparr>, evs))
          (work s r)"
    using work_callback_irrelevant by blast
next
  assume "startInput s = Some inp \<and> Master inp = Some f"
  then show "loop (s\<lparr>startInput := Some (inp\<lparr>Master := Some g\<rparr>)\<rparr>) cs =
        map_sum id (\<lambda>(s', evs, b). (s'\<lparr>startInput := Some (inp\<lparr>Master := Some g\<rparr>)\<rparr>, evs, b))
          (loop s cs)"
    using loop_callback_irrelevant by blast
qed

theorem callback_once_per_successful_cycle_witness:
  "lock sample_kettle \<noteq> None \<and> startInput sample_kettle = Some sample_input \<and>
   Master sample_input = Some (\<lambda>c. None) \<and>
   (\<exists>s' evs. work sample_kettle None = Inr (s', evs) \<and> callback_calls evs = [7]) \<and>
   (\<exists>s' evs b.
      loop sample_kettle [TickCase None, TickCase (Some (OtherError ''held'')), TickCase None]
        = Inr (s', evs, b) \<and> callback_calls evs = [7, 7]) \<and>
   loop (sample_kettle\<lparr>startInput :=
           Some (sample_input\<lparr>Master := Some (\<lambda>c. Some (OtherError ''failed''))\<rparr>)\<rparr>)
        [TickCase None, TickCase (Some (OtherError ''held'')), TickCase None] =
     map_sum id (\<lambda>(s', evs, b).
         (s'\<lparr>startInput :=
              Some (sample_input\<lparr>Master := Some (\<lambda>c. Some (OtherError ''failed''))\<rparr>)\<rparr>, evs, b))
       (loop sample_kettle [TickCase None, TickCase (Some (OtherError ''held'')), TickCase None])"
  using callback_once_per_successful_cycle
          [of sample_kettle sample_input None
              "[TickCase None, TickCase (Some (OtherError ''held'')), TickCase None]"
              "\<lambda>c. None" "\<lambda>c. Some (OtherError ''failed'')"]
  by (simp add: sample_kettle_def sample_input_def work_def setMaster_def isMaster_def
                infof_def)

text \<open>
  Claim C10. With a nil \<open>Master\<close>, a cycle in which \<open>Lock()\<close> returns nil sets the flag
  to 1, invokes nothing and does not panic; the loop then goes on through any further
  cases, still without a call, and the flag follows the last acquisition.
\<close>

theorem nil_callback_is_skipped:
  "lock s \<noteq> None \<and> startInput s = Some inp \<and> Master inp = None \<longrightarrow>
     (\<exists>evs. work s None = Inr (s\<lparr>master := 1\<rparr>, evs) \<and> callback_calls evs = []) \<and>
     (\<exists>s' evs b. loop s (TickCase None # cs) = Inr (s', evs, b) \<and> callback_calls evs = [] \<and>
        isMaster s' = (last (None # outcomes cs) = None))"
proof (intro impI conjI)
  assume a: "lock s \<noteq> None \<and> startInput s = Some inp \<and> Master inp = None"
  then obtain evs where w: "work s None = Inr (s\<lparr>master := 1\<rparr>, evs)"
    using work_total [of s None] by auto
  from work_calls [OF w] a w
  show "\<exists>evs. work s None = Inr (s\<lparr>master := 1\<rparr>, evs) \<and> callback_calls evs = []"
    by auto
  from a obtain res where "loop s (TickCase None # cs) = Inr res"
    using loop_total [of s "TickCase None # cs"] by auto
  then obtain s' evs' b where l: "loop s (TickCase None # cs) = Inr (s', evs', b)"
    by (cases res) auto
  from loop_calls [OF _ l] loop_Inr [OF l] a l
  show "\<exists>s' evs b. loop s (TickCase None # cs) = Inr (s', evs, b) \<and> callback_calls evs = [] \<and>
        isMaster s' = (last (None # outcomes cs) = None)"
    by (auto simp: isMaster_def split: list.splits)
qed

theorem nil_callback_is_skipped_witness:
  "lock (sample_kettle\<lparr>startInput := Some sample_input_nil\<rparr>) \<noteq> None \<and>
   startInput (sample_kettle\<lparr>startInput := Some sample_input_nil\<rparr>) = Some sample_input_nil \<and>
   Master sample_input_nil = None \<and>
   (\<exists>evs. work (sample_kettle\<lparr>startInput := Some sample_input_nil\<rparr>) None =
       Inr (sample_kettle\<lparr>startInput := Some sample_input_nil, master := 1\<rparr>, evs) \<and>
       callback_calls evs = []) \<and>
   (\<exists>s' evs b. loop (sample_kettle\<lparr>startInput := Some sample_input_nil\<rparr>)
                    [TickCase None, TickCase None] = Inr (s', evs, b) \<and>
       callback_calls evs = [] \<and> isMaster s')"
  using nil_callback_is_skipped
          [of "sample_kettle\<lparr>startInput := Some sample_input_nil\<rparr>" sample_input_nil
              "[TickCase None]"]
  by (simp add: sample_kettle_def sample_input_nil_def)

text \<open>
  Claim C6. For every error from \<open>Lock()\<close>, \<open>setMaster\<close> returns normally with the flag
  at 0, and its result does not hold the error; the cycle invokes no callback and exits
  nothing. No run of the engine contains an \<open>os.Exit\<close>, and none panics because of a
  lock error; \<open>fatal\<close> and \<open>fatalf\<close>, which would exit with code 1, are never reached.
\<close>

theorem lock_errors_are_not_fatal:
  "(lock s \<noteq> None \<longrightarrow>
      setMaster s (Some err) =
        Inr (s\<lparr>master := 0\<rparr>,
             EvLock # infof s (''['' @ name s @ ''] '' @ hostname s @ '' set to worker'')) \<and>
      (\<exists>evs. work s (Some err) = Inr (s\<lparr>master := 0\<rparr>, evs) \<and>
             exit_codes evs = [] \<and> callback_calls evs = [])) \<and>
   (\<forall>s' evs b. engine s r cs = Inr (s', evs, b) \<longrightarrow> exit_codes evs = []) \<and>
   (lock s \<noteq> None \<and> startInput s \<noteq> None \<and> 0 < sint (Second * tickTime s) \<longrightarrow>
      (\<exists>res. engine s r cs = Inr res)) \<and>
   exit_codes (fatal s v) = [1] \<and> exit_codes (fatalf s m) = [1]"
proof (intro conjI impI allI)
  assume "lock s \<noteq> None"
  then show "setMaster s (Some err) =
        Inr (s\<lparr>master := 0\<rparr>,
             EvLock # infof s (''['' @ name s @ ''] '' @ hostname s @ '' set to worker''))"
    and "\<exists>evs. work s (Some err) = Inr (s\<lparr>master := 0\<rparr>, evs) \<and>
             exit_codes evs = [] \<and> callback_calls evs = []"
    by (auto simp: work_def setMaster_def isMaster_def infof_def)
next
  fix s' evs b
  assume "engine s r cs = Inr (s', evs, b)"
  then show "exit_codes evs = []" by (rule engine_Inr(2))
next
  assume "lock s \<noteq> None \<and> startInput s \<noteq> None \<and> 0 < sint (Second * tickTime s)"
  then show "\<exists>res. engine s r cs = Inr res" using engine_total by blast
next
  show "exit_codes (fatal s v) = [1]" by (simp add: fatal_def error_def)
  show "exit_codes (fatalf s m) = [1]" by (simp add: fatalf_def errorf_def)
qed

theorem lock_errors_are_not_fatal_witness:
  "lock sample_kettle \<noteq> None \<and> startInput sample_kettle \<noteq> None \<and>
   0 < sint (Second * tickTime sample_kettle) \<and>
   setMaster sample_kettle (Some (OtherError ''held'')) =
     Inr (sample_kettle\<lparr>master := 0\<rparr>,
          [EvLock, EvLog Info ''[kettle] host__uuid set to worker'']) \<and>
   (\<exists>s' evs b. engine sample_kettle (Some (OtherError ''held''))
                  [TickCase (Some (OtherError ''down'')), TickCase None] = Inr (s', evs, b) \<and>
       exit_codes evs = [])"
  using lock_errors_are_not_fatal
          [of sample_kettle "OtherError ''held''" "Some (OtherError ''held'')"
              "[TickCase (Some (OtherError ''down'')), TickCase None]" "[]" "[]"]
  by (auto simp: sample_kettle_def Second_def infof_def)

subsection \<open>The shutdown handshake\<close>

lemma handshake_append [simp]: "handshake (xs @ ys) = handshake xs @ handshake ys"
  by (simp add: handshake_def)

lemma handshake_infof [simp]: "handshake (infof s m) = []"
  by (simp add: handshake_def infof_def)

lemma handshake_Nil [simp]: "handshake [] = []"
  by (simp add: handshake_def)

lemma handshake_Cons [simp]:
  "handshake (e # evs) = (if is_handshake e then e # handshake evs else handshake evs)"
  by (simp add: handshake_def)

lemma setMaster_keeps:
  "setMaster s r = Inr (s', evs) \<Longrightarrow>
     masterQuit s' = masterQuit s \<and> masterDone s' = masterDone s \<and> handshake evs = [] \<and>
     lock s' = lock s \<and> tickTime s' = tickTime s"
  by (auto simp: setMaster_def split: option.splits)

lemma take_protocol:
  "take (Suc 0) (protocol :: 'c event list) = [EvRecv QuitCh]"
  "take 2 (protocol :: 'c event list) = [EvRecv QuitCh, EvSend MasterQuitCh]"
  "take 3 (protocol :: 'c event list) = [EvRecv QuitCh, EvSend MasterQuitCh, EvRecv MasterQuitCh]"
  "take 4 (protocol :: 'c event list) =
     [EvRecv QuitCh, EvSend MasterQuitCh, EvRecv MasterQuitCh, EvSend MasterDoneCh]"
  "take 5 (protocol :: 'c event list) =
     [EvRecv QuitCh, EvSend MasterQuitCh, EvRecv MasterQuitCh, EvSend MasterDoneCh,
      EvRecv MasterDoneCh]"
  "take 6 (protocol :: 'c event list) =
     [EvRecv QuitCh, EvSend MasterQuitCh, EvRecv MasterQuitCh, EvSend MasterDoneCh,
      EvRecv MasterDoneCh, EvSend DoneCh]"
  by (simp_all add: protocol_def numeral_eq_Suc)

lemma inv_boot: "handshake_inv (boot s inp host uuid)"
  by (simp add: handshake_inv_def boot_def Start_def make_chan_def)

lemma stage_not_returned:
  "e \<noteq> E_SendMasterDone \<Longrightarrow> e \<noteq> E_Returned \<Longrightarrow> stage W_RecvMasterDone e = 2"
  by (cases e) simp_all

lemma stage_same:
  "e \<noteq> E_SendMasterDone \<Longrightarrow> e \<noteq> E_Returned \<Longrightarrow> e' \<noteq> E_SendMasterDone \<Longrightarrow> e' \<noteq> E_Returned \<Longrightarrow>
     stage w e' = stage w e \<and> consistent w e' = consistent w e"
  by (cases w) (simp_all add: stage_not_returned)

lemma inv_quit_arrives:
  assumes "handshake_inv \<sigma>" and "quit_arrives \<sigma> = Some \<sigma>'"
  shows "handshake_inv \<sigma>'"
proof -
  from assms(2) have w: "w_pc \<sigma> = W_RecvQuit"
    and s: "\<sigma>' = \<sigma>\<lparr>w_pc := W_SendMasterQuit,
                   events := events \<sigma> @ EvRecv QuitCh #
                     infof (kettle \<sigma>) (''['' @ name (kettle \<sigma>) @ ''] requested to terminate'')\<rparr>"
    by (auto simp: quit_arrives_def split: if_splits)
  from assms(1) w show ?thesis
    unfolding s by (simp add: handshake_inv_def take_protocol)
qed

lemma inv_done_taken:
  assumes "handshake_inv \<sigma>" and "done_taken \<sigma> = Some \<sigma>'"
  shows "handshake_inv \<sigma>'"
proof -
  from assms(2) have w: "w_pc \<sigma> = W_SendDone"
    and s: "\<sigma>' = \<sigma>\<lparr>w_pc := W_Returned, events := events \<sigma> @ [EvSend DoneCh]\<rparr>"
    by (auto simp: done_taken_def split: if_splits)
  from assms(1) w show ?thesis
    unfolding s by (simp add: handshake_inv_def take_protocol)
qed

lemma inv_watcher_step:
  assumes "handshake_inv \<sigma>" and "watcher_step \<sigma> = Some \<sigma>'"
  shows "handshake_inv \<sigma>'"
proof (cases "w_pc \<sigma>")
  case W_SendMasterQuit
  with assms(1) have e: "e_pc \<sigma> \<noteq> E_SendMasterDone" "e_pc \<sigma> \<noteq> E_Returned"
    and mq: "masterQuit (kettle \<sigma>) = Some \<lparr>cap = 1, buf = []\<rparr>"
    by (simp_all add: handshake_inv_def)
  from assms(2) W_SendMasterQuit mq
  have s: "\<sigma>' = \<sigma>\<lparr>kettle := (kettle \<sigma>)\<lparr>masterQuit := Some \<lparr>cap = 1, buf = [None]\<rparr>\<rparr>,
                  w_pc := W_RecvMasterDone, events := events \<sigma> @ [EvSend MasterQuitCh]\<rparr>"
    by (simp add: watcher_step_def chan_send_def)
  from assms(1) W_SendMasterQuit e show ?thesis
    unfolding s by (simp add: handshake_inv_def take_protocol stage_not_returned)
next
  case W_RecvMasterDone
  from assms(2) W_RecvMasterDone obtain v c' where
    r: "chan_recv (masterDone (kettle \<sigma>)) = Some (v, c')"
    and s: "\<sigma>' = \<sigma>\<lparr>kettle := (kettle \<sigma>)\<lparr>masterDone := c'\<rparr>, w_pc := W_SendDone,
                  events := events \<sigma> @ EvRecv MasterDoneCh #
                    infof (kettle \<sigma>) (''['' @ name (kettle \<sigma>) @ ''] terminate complete'')\<rparr>"
    by (auto simp: watcher_step_def split: option.splits)
  from assms(1) r have st: "stage (w_pc \<sigma>) (e_pc \<sigma>) = 4"
    by (auto simp: handshake_inv_def chan_recv_def split: if_splits)
  with W_RecvMasterDone have e: "e_pc \<sigma> = E_Returned"
    by (cases "e_pc \<sigma>") simp_all
  from assms(1) r st have c': "c' = Some \<lparr>cap = 1, buf = []\<rparr>"
    by (auto simp: handshake_inv_def chan_recv_def)
  from assms(1) W_RecvMasterDone e show ?thesis
    unfolding s c' by (simp add: handshake_inv_def take_protocol)
qed (use assms(2) in \<open>simp_all add: watcher_step_def\<close>)


lemma inv_only_pcs:
  assumes "handshake_inv \<sigma>"
    and "w_pc \<sigma>' = w_pc \<sigma>"
    and "e_pc \<sigma> \<noteq> E_SendMasterDone" "e_pc \<sigma> \<noteq> E_Returned"
    and "e_pc \<sigma>' \<noteq> E_SendMasterDone" "e_pc \<sigma>' \<noteq> E_Returned"
    and "handshake (events \<sigma>') = handshake (events \<sigma>)"
    and "masterQuit (kettle \<sigma>') = masterQuit (kettle \<sigma>)"
    and "masterDone (kettle \<sigma>') = masterDone (kettle \<sigma>)"
  shows "handshake_inv \<sigma>'"
  using assms stage_same [of "e_pc \<sigma>" "e_pc \<sigma>'" "w_pc \<sigma>"]
  by (simp add: handshake_inv_def)

lemma inv_same_pcs:
  assumes "handshake_inv \<sigma>"
    and "w_pc \<sigma>' = w_pc \<sigma>" and "e_pc \<sigma>' = e_pc \<sigma>"
    and "handshake (events \<sigma>') = handshake (events \<sigma>)"
    and "masterQuit (kettle \<sigma>') = masterQuit (kettle \<sigma>)"
    and "masterDone (kettle \<sigma>') = masterDone (kettle \<sigma>)"
  shows "handshake_inv \<sigma>'"
  using assms by (simp add: handshake_inv_def)

lemma work_done_pc [simp]:
  "work_done c \<noteq> E_SendMasterDone" "work_done c \<noteq> E_Returned"
  by (cases c; simp add: work_done_def)+

lemma inv_engine_step:
  assumes "handshake_inv \<sigma>" and "engine_step \<sigma> = Some \<sigma>'"
  shows "handshake_inv \<sigma>'"
proof (cases "e_pc \<sigma>")
  case E_NewTicker
  show ?thesis
  proof (cases "NewTicker (Second * tickTime (kettle \<sigma>))")
    case (Inl p)
    with assms(2) E_NewTicker have "\<sigma>' = \<sigma>\<lparr>crashed := Some p\<rparr>"
      by (simp add: engine_step_def)
    with assms(1) show ?thesis by (intro inv_same_pcs [OF assms(1)]) simp_all
  next
    case (Inr d)
    with assms(2) E_NewTicker
    have "\<sigma>' = \<sigma>\<lparr>tickerC := Some False, e_pc := E_Work First InLock,
                  events := events \<sigma> @ [EvNewTicker d]\<rparr>"
      by (simp add: engine_step_def)
    with E_NewTicker show ?thesis by (intro inv_only_pcs [OF assms(1)]) simp_all
  qed
next
  case E_Go
  with assms(2) have "\<sigma>' = \<sigma>\<lparr>e_pc := E_Select, events := events \<sigma> @ [EvGo Loop]\<rparr>"
    by (simp add: engine_step_def)
  with E_Go show ?thesis by (intro inv_only_pcs [OF assms(1)]) simp_all
next
  case E_SendMasterDone
  with assms(1) have w: "w_pc \<sigma> = W_RecvMasterDone"
    by (cases "w_pc \<sigma>") (simp_all add: handshake_inv_def)
  with assms(1) E_SendMasterDone have md: "masterDone (kettle \<sigma>) = Some \<lparr>cap = 1, buf = []\<rparr>"
    by (simp add: handshake_inv_def)
  from assms(2) E_SendMasterDone md
  have s: "\<sigma>' = \<sigma>\<lparr>kettle := (kettle \<sigma>)\<lparr>masterDone := Some \<lparr>cap = 1, buf = [None]\<rparr>\<rparr>,
                  e_pc := E_Returned, events := events \<sigma> @ [EvSend MasterDoneCh]\<rparr>"
    by (simp add: engine_step_def chan_send_def)
  from assms(1) w E_SendMasterDone show ?thesis
    unfolding s by (simp add: handshake_inv_def take_protocol)
qed (use assms(2) in \<open>simp_all add: engine_step_def\<close>)

lemma lock_returns_cases:
  assumes "lock_returns r \<sigma> = Some \<sigma>'"
  obtains c p where "e_pc \<sigma> = E_Work c InLock" "\<sigma>' = \<sigma>\<lparr>crashed := Some p\<rparr>"
  | c s' evs p where "e_pc \<sigma> = E_Work c InLock" "setMaster (kettle \<sigma>) r = Inr (s', evs)"
      "\<sigma>' = \<sigma>\<lparr>kettle := s', crashed := Some p, events := events \<sigma> @ evs\<rparr>"
  | c s' evs where "e_pc \<sigma> = E_Work c InLock" "setMaster (kettle \<sigma>) r = Inr (s', evs)"
      "\<sigma>' = \<sigma>\<lparr>kettle := s', e_pc := work_done c, events := events \<sigma> @ evs\<rparr>"
  | c s' evs x where "e_pc \<sigma> = E_Work c InLock" "setMaster (kettle \<sigma>) r = Inr (s', evs)"
      "\<sigma>' = \<sigma>\<lparr>kettle := s', e_pc := E_Work c InCallback,
               events := events \<sigma> @ evs @ [EvMaster x]\<rparr>"
  using assms
  by (auto simp: lock_returns_def
           split: epc.splits phase.splits sum.splits prod.splits if_splits option.splits)

lemma inv_lock_returns:
  assumes "handshake_inv \<sigma>" and "lock_returns r \<sigma> = Some \<sigma>'"
  shows "handshake_inv \<sigma>'"
  using assms(2)
proof (cases rule: lock_returns_cases)
  case (1 c p)
  then show ?thesis by (intro inv_same_pcs [OF assms(1)]) simp_all
next
  case (2 c s' evs p)
  with setMaster_keeps [OF 2(2)] show ?thesis
    by (intro inv_same_pcs [OF assms(1)]) simp_all
next
  case (3 c s' evs)
  with setMaster_keeps [OF 3(2)] show ?thesis
    by (intro inv_only_pcs [OF assms(1)]) simp_all
next
  case (4 c s' evs x)
  with setMaster_keeps [OF 4(2)] show ?thesis
    by (intro inv_only_pcs [OF assms(1)]) simp_all
qed

lemma inv_master_returns:
  assumes "handshake_inv \<sigma>" and "master_returns err \<sigma> = Some \<sigma>'"
  shows "handshake_inv \<sigma>'"
proof -
  from assms(2) obtain c where "e_pc \<sigma> = E_Work c InCallback" "\<sigma>' = \<sigma>\<lparr>e_pc := work_done c\<rparr>"
    by (auto simp: master_returns_def split: epc.splits phase.splits)
  then show ?thesis by (intro inv_only_pcs [OF assms(1)]) simp_all
qed

lemma inv_ticker_fires:
  assumes "handshake_inv \<sigma>" and "ticker_fires \<sigma> = Some \<sigma>'"
  shows "handshake_inv \<sigma>'"
proof -
  from assms(2) have "\<sigma>' = \<sigma>\<lparr>tickerC := Some True\<rparr>"
    by (auto simp: ticker_fires_def split: option.splits)
  then show ?thesis by (intro inv_same_pcs [OF assms(1)]) simp_all
qed

lemma inv_select_tick:
  assumes "handshake_inv \<sigma>" and "select_tick \<sigma> = Some \<sigma>'"
  shows "handshake_inv \<sigma>'"
proof -
  from assms(2) have "e_pc \<sigma> = E_Select"
    "\<sigma>' = \<sigma>\<lparr>tickerC := Some False, e_pc := E_Work Later InLock,
             events := events \<sigma> @ [EvRecv TickerC]\<rparr>"
    by (auto simp: select_tick_def split: if_splits)
  then show ?thesis by (intro inv_only_pcs [OF assms(1)]) simp_all
qed

lemma inv_select_quit:
  assumes "handshake_inv \<sigma>" and "select_quit \<sigma> = Some \<sigma>'"
  shows "handshake_inv \<sigma>'"
proof -
  from assms(2) obtain v c' where e: "e_pc \<sigma> = E_Select"
    and r: "chan_recv (masterQuit (kettle \<sigma>)) = Some (v, c')"
    and s: "\<sigma>' = \<sigma>\<lparr>kettle := (kettle \<sigma>)\<lparr>masterQuit := c'\<rparr>, e_pc := E_SendMasterDone,
                  events := events \<sigma> @ [EvRecv MasterQuitCh]\<rparr>"
    by (auto simp: select_quit_def split: if_splits option.splits)
  from assms(1) r have st: "stage (w_pc \<sigma>) (e_pc \<sigma>) = 2"
    by (auto simp: handshake_inv_def chan_recv_def split: if_splits)
  with e have w: "w_pc \<sigma> = W_RecvMasterDone"
    by (cases "w_pc \<sigma>") simp_all
  from assms(1) r st have c': "c' = Some \<lparr>cap = 1, buf = []\<rparr>"
    by (auto simp: handshake_inv_def chan_recv_def)
  from assms(1) w e show ?thesis
    unfolding s c' by (simp add: handshake_inv_def take_protocol)
qed

lemma inv_step:
  assumes "handshake_inv \<sigma>" and "step a \<sigma> = Some \<sigma>'"
  shows "handshake_inv \<sigma>'"
proof -
  from assms(2) have c: "crashed \<sigma> = None" by (auto simp: step_def split: if_splits)
  show ?thesis
  proof (cases a)
    case QuitArrives
    with assms c show ?thesis by (auto simp: step_def intro: inv_quit_arrives)
  next
    case WatcherStep
    with assms c show ?thesis by (auto simp: step_def intro: inv_watcher_step)
  next
    case DoneTaken
    with assms c show ?thesis by (auto simp: step_def intro: inv_done_taken)
  next
    case EngineStep
    with assms c show ?thesis by (auto simp: step_def intro: inv_engine_step)
  next
    case (LockReturns r)
    with assms c show ?thesis by (auto simp: step_def intro: inv_lock_returns)
  next
    case (MasterReturns err)
    with assms c show ?thesis by (auto simp: step_def intro: inv_master_returns)
  next
    case TickerFires
    with assms c show ?thesis by (auto simp: step_def intro: inv_ticker_fires)
  next
    case SelectTick
    with assms c show ?thesis by (auto simp: step_def intro: inv_select_tick)
  next
    case SelectQuit
    with assms c show ?thesis by (auto simp: step_def intro: inv_select_quit)
  qed
qed

lemma inv_run: "handshake_inv \<sigma> \<Longrightarrow> run acts \<sigma> = Some \<sigma>' \<Longrightarrow> handshake_inv \<sigma>'"
proof (induction acts arbitrary: \<sigma>)
  case Nil
  then show ?case by simp
next
  case (Cons a acts)
  then show ?case by (auto split: option.splits dest: inv_step)
qed


lemma helpful_step:
  assumes i: "handshake_inv \<sigma>" and h: "healthy \<sigma>" and w: "w_pc \<sigma> \<noteq> W_Returned"
  shows "\<exists>\<sigma>'. step (helpful (w_pc \<sigma>) (e_pc \<sigma>)) \<sigma> = Some \<sigma>' \<and> healthy \<sigma>' \<and> rank \<sigma>' < rank \<sigma>"
proof (cases "e_pc \<sigma>")
  case E_NewTicker
  with h show ?thesis
    by (simp add: step_def healthy_def engine_step_def NewTicker_def rank_def)
next
  case (E_Work c p)
  show ?thesis
  proof (cases p)
    case InLock
    with E_Work h show ?thesis
      by (cases c)
         (auto simp: step_def healthy_def lock_returns_def setMaster_def isMaster_def
                     rank_def work_done_def)
  next
    case InCallback
    with E_Work h show ?thesis
      by (cases c) (auto simp: step_def healthy_def master_returns_def rank_def work_done_def)
  qed
next
  case E_Go
  with h show ?thesis
    by (simp add: step_def healthy_def engine_step_def rank_def)
next
  case E_Select
  show ?thesis
  proof (cases "w_pc \<sigma>")
    case W_RecvQuit
    with E_Select h show ?thesis
      by (simp add: step_def healthy_def quit_arrives_def rank_def)
  next
    case W_SendMasterQuit
    with E_Select h i show ?thesis
      by (simp add: step_def healthy_def watcher_step_def chan_send_def handshake_inv_def
                    rank_def)
  next
    case W_RecvMasterDone
    with E_Select h i show ?thesis
      by (simp add: step_def healthy_def select_quit_def chan_recv_def handshake_inv_def
                    rank_def)
  next
    case W_SendDone
    with E_Select i show ?thesis by (simp add: handshake_inv_def)
  next
    case W_Returned
    with w show ?thesis by simp
  qed
next
  case E_SendMasterDone
  with i have "w_pc \<sigma> = W_RecvMasterDone"
    by (cases "w_pc \<sigma>") (simp_all add: handshake_inv_def)
  with E_SendMasterDone h i show ?thesis
    by (simp add: step_def healthy_def engine_step_def chan_send_def handshake_inv_def
                  rank_def)
next
  case E_Returned
  show ?thesis
  proof (cases "w_pc \<sigma>")
    case W_RecvMasterDone
    with E_Returned h i show ?thesis
      by (simp add: step_def healthy_def watcher_step_def chan_recv_def handshake_inv_def
                    rank_def)
  next
    case W_SendDone
    with E_Returned h show ?thesis
      by (simp add: step_def healthy_def done_taken_def rank_def)
  next
    case W_Returned
    with w show ?thesis by simp
  qed (use E_Returned i in \<open>simp_all add: handshake_inv_def\<close>)
qed

lemma drive_finishes:
  "handshake_inv \<sigma> \<Longrightarrow> healthy \<sigma> \<Longrightarrow> rank \<sigma> \<le> n \<Longrightarrow>
     \<exists>\<sigma>'. run (drive n \<sigma>) \<sigma> = Some \<sigma>' \<and> w_pc \<sigma>' = W_Returned \<and> healthy \<sigma>'"
proof (induction n arbitrary: \<sigma>)
  case 0
  then have "w_pc \<sigma> = W_Returned" by (cases "w_pc \<sigma>") (simp_all add: rank_def)
  with 0 show ?case by simp
next
  case (Suc n)
  show ?case
  proof (cases "w_pc \<sigma> = W_Returned")
    case True
    with Suc.prems show ?thesis by simp
  next
    case False
    from helpful_step [OF Suc.prems(1,2) False] obtain \<sigma>1 where
      st: "step (helpful (w_pc \<sigma>) (e_pc \<sigma>)) \<sigma> = Some \<sigma>1" and h1: "healthy \<sigma>1"
      and r1: "rank \<sigma>1 < rank \<sigma>" by blast
    from inv_step [OF Suc.prems(1) st] have i1: "handshake_inv \<sigma>1" .
    from r1 Suc.prems(3) have "rank \<sigma>1 \<le> n" by simp
    from Suc.IH [OF i1 h1 this] obtain \<sigma>' where
      "run (drive n \<sigma>1) \<sigma>1 = Some \<sigma>'" "w_pc \<sigma>' = W_Returned" "healthy \<sigma>'" by blast
    with False st show ?thesis by simp
  qed
qed

lemma count_list_handshake:
  "is_handshake x \<Longrightarrow> count_list (handshake evs) x = count_list evs x"
  by (induction evs) auto

lemma count_list_pos: "x \<in> set xs \<Longrightarrow> 0 < count_list xs x"
  by (induction xs) auto

lemma stage_done:
  "count_list (take (stage w e) protocol) (EvSend DoneCh) = (if w = W_Returned then 1 else 0)"
  by (cases w; cases e) (simp_all add: take_protocol)

lemma inv_done_count:
  assumes "handshake_inv \<sigma>"
  shows "count_list (events \<sigma>) (EvSend DoneCh) = (if w_pc \<sigma> = W_Returned then 1 else 0)"
proof -
  have "count_list (events \<sigma>) (EvSend DoneCh :: 'b event)
          = count_list (handshake (events \<sigma>)) (EvSend DoneCh)"
    by (simp add: count_list_handshake)
  with assms show ?thesis by (simp add: handshake_inv_def stage_done)
qed

lemma inv_stopped:
  assumes "handshake_inv \<sigma>" and "w_pc \<sigma> = W_SendDone \<or> w_pc \<sigma> = W_Returned"
  shows "e_pc \<sigma> = E_Returned"
  using assms by (auto simp: handshake_inv_def)

text \<open>
  Claim C3. In every state that any schedule reaches after \<open>Start\<close>, the handshake events
  that have happened are an initial part of: receive on \<open>Quit\<close>, send on \<open>masterQuit\<close>,
  receive on \<open>masterQuit\<close>, send on \<open>masterDone\<close>, receive on \<open>masterDone\<close>, send on
  \<open>Done\<close>. \<open>Done\<close> has been sent once when the watcher has returned and not at all
  before; when the watcher is about to send it, and ever after, the loop goroutine has
  returned, so no work cycle is in flight. From every reachable state of a process that
  has not panicked, with a lock, a positive ticker interval and non-nil \<open>Quit\<close> and
  \<open>Done\<close>, a schedule of at most \<open>rank\<close> steps completes the shutdown with exactly one
  send on \<open>Done\<close>.
\<close>

theorem shutdown_handshake_in_order:
  "run acts (boot s inp host uuid) = Some \<sigma> \<longrightarrow>
     handshake (events \<sigma>) = take (stage (w_pc \<sigma>) (e_pc \<sigma>)) protocol \<and>
     count_list (events \<sigma>) (EvSend DoneCh) = (if w_pc \<sigma> = W_Returned then 1 else 0) \<and>
     (w_pc \<sigma> = W_SendDone \<or> w_pc \<sigma> = W_Returned \<or> EvSend DoneCh \<in> set (events \<sigma>) \<longrightarrow>
        e_pc \<sigma> = E_Returned \<and> \<not> in_flight (e_pc \<sigma>)) \<and>
     (healthy \<sigma> \<longrightarrow>
        (\<exists>\<sigma>'. run (drive (rank \<sigma>) \<sigma>) \<sigma> = Some \<sigma>' \<and> w_pc \<sigma>' = W_Returned \<and>
              count_list (events \<sigma>') (EvSend DoneCh) = 1))"
proof
  assume r: "run acts (boot s inp host uuid) = Some \<sigma>"
  from inv_run [OF inv_boot r] have i: "handshake_inv \<sigma>" .
  have 1: "handshake (events \<sigma>) = take (stage (w_pc \<sigma>) (e_pc \<sigma>)) protocol"
    using i by (simp add: handshake_inv_def)
  have 2: "count_list (events \<sigma>) (EvSend DoneCh) = (if w_pc \<sigma> = W_Returned then 1 else 0)"
    by (rule inv_done_count [OF i])
  have 3: "e_pc \<sigma> = E_Returned \<and> \<not> in_flight (e_pc \<sigma>)"
    if "w_pc \<sigma> = W_SendDone \<or> w_pc \<sigma> = W_Returned \<or> EvSend DoneCh \<in> set (events \<sigma>)"
  proof -
    have "w_pc \<sigma> = W_SendDone \<or> w_pc \<sigma> = W_Returned"
    proof (rule ccontr)
      assume n: "\<not> (w_pc \<sigma> = W_SendDone \<or> w_pc \<sigma> = W_Returned)"
      with that have "EvSend DoneCh \<in> set (events \<sigma>)" by simp
      then have "count_list (events \<sigma>) (EvSend DoneCh) > 0"
        by (rule count_list_pos)
      with 2 n show False by simp
    qed
    from inv_stopped [OF i this] show ?thesis by simp
  qed
  have 4: "\<exists>\<sigma>'. run (drive (rank \<sigma>) \<sigma>) \<sigma> = Some \<sigma>' \<and> w_pc \<sigma>' = W_Returned \<and>
              count_list (events \<sigma>') (EvSend DoneCh) = 1" if h: "healthy \<sigma>"
  proof -
    from drive_finishes [OF i h order_refl] obtain \<sigma>' where
      d: "run (drive (rank \<sigma>) \<sigma>) \<sigma> = Some \<sigma>'" and w: "w_pc \<sigma>' = W_Returned" by blast
    from inv_run [OF i d] have "handshake_inv \<sigma>'" .
    from inv_done_count [OF this] w d show ?thesis by simp
  qed
  from 1 2 3 4
  show "handshake (events \<sigma>) = take (stage (w_pc \<sigma>) (e_pc \<sigma>)) protocol \<and>
     count_list (events \<sigma>) (EvSend DoneCh) = (if w_pc \<sigma> = W_Returned then 1 else 0) \<and>
     (w_pc \<sigma> = W_SendDone \<or> w_pc \<sigma> = W_Returned \<or> EvSend DoneCh \<in> set (events \<sigma>) \<longrightarrow>
        e_pc \<sigma> = E_Returned \<and> \<not> in_flight (e_pc \<sigma>)) \<and>
     (healthy \<sigma> \<longrightarrow>
        (\<exists>\<sigma>'. run (drive (rank \<sigma>) \<sigma>) \<sigma> = Some \<sigma>' \<and> w_pc \<sigma>' = W_Returned \<and>
              count_list (events \<sigma>') (EvSend DoneCh) = 1))"
    by blast
qed

text \<open>
  The sample schedule: the ticker fires and quit arrives during the first cycle, the first
  cycle succeeds and runs the callback, one tick cycle fails to acquire, and then the
  shutdown is carried through.
\<close>

lemma boot_sample:
  "boot sample_new sample_input ''host'' ''uuid'' =
     \<lparr>kettle = sample_kettle, input = sample_input, w_pc = W_RecvQuit, e_pc = E_NewTicker,
      tickerC = None, crashed = None, events = []\<rparr>"
  by (simp add: boot_def Start_def sample_new_def sample_kettle_def)

lemma run_sample_schedule:
  "run sample_schedule (boot sample_new sample_input ''host'' ''uuid'') =
     Some \<lparr>kettle = sample_kettle, input = sample_input, w_pc = W_Returned, e_pc = E_Returned,
           tickerC = Some False, crashed = None,
           events =
             [EvNewTicker 30000000000, EvRecv QuitCh,
              EvLog Info ''[kettle] requested to terminate'', EvLock,
              EvLog Info ''[kettle] host__uuid set to master'', EvMaster 7,
              EvSend MasterQuitCh, EvGo Loop, EvRecv TickerC, EvLock,
              EvLog Info ''[kettle] host__uuid set to worker'', EvRecv MasterQuitCh,
              EvSend MasterDoneCh, EvRecv MasterDoneCh,
              EvLog Info ''[kettle] terminate complete'', EvSend DoneCh]\<rparr>"
  unfolding boot_sample
  by (simp add: sample_schedule_def step_def engine_step_def ticker_fires_def
                quit_arrives_def lock_returns_def watcher_step_def master_returns_def
                select_tick_def select_quit_def done_taken_def work_done_def
                setMaster_def isMaster_def infof_def NewTicker_def Second_def
                chan_send_def chan_recv_def sample_kettle_def sample_input_def make_chan_def)

theorem shutdown_handshake_in_order_witness:
  "\<exists>\<sigma>. run sample_schedule (boot sample_new sample_input ''host'' ''uuid'') = Some \<sigma> \<and>
        handshake (events \<sigma>) = protocol \<and>
        count_list (events \<sigma>) (EvSend DoneCh) = 1 \<and>
        w_pc \<sigma> = W_Returned \<and> e_pc \<sigma> = E_Returned \<and> healthy \<sigma>"
  using shutdown_handshake_in_order
          [of sample_schedule sample_new sample_input "''host''" "''uuid''"]
        run_sample_schedule
  by (simp add: take_protocol protocol_def healthy_def sample_kettle_def sample_input_def
                Second_def)

subsection \<open>The first attempt\<close>

lemma received_append [simp]:
  "ticker_or_quit_received (xs @ ys) =
     (ticker_or_quit_received xs \<or> ticker_or_quit_received ys)"
  by (induction xs rule: ticker_or_quit_received.induct) simp_all

lemma received_infof [simp]: "\<not> ticker_or_quit_received (infof s m)"
  by (simp add: infof_def)

lemma setMaster_events:
  "setMaster s r = Inr (s', evs) \<Longrightarrow>
     \<not> ticker_or_quit_received evs \<and> (\<exists>rest. evs = EvLock # rest)"
  by (auto simp: setMaster_def split: option.splits)

lemma work_events:
  "work s r = Inr (s', evs) \<Longrightarrow>
     \<not> ticker_or_quit_received evs \<and> (\<exists>rest. evs = EvLock # rest)"
  by (auto simp: work_def split: sum.splits prod.splits if_splits option.splits
           dest!: setMaster_events)

lemma doMaster_events:
  assumes "doMaster s r = Inr (s', evs)"
  shows "\<exists>rest. evs = EvNewTicker (Second * tickTime s) # EvLock # rest @ [EvGo Loop]"
    and "\<not> ticker_or_quit_received evs"
    and "0 < sint (Second * tickTime s)"
proof -
  from assms obtain d evs1 where t: "NewTicker (Second * tickTime s) = Inr d"
    and w: "work s r = Inr (s', evs1)" and e: "evs = EvNewTicker d # evs1 @ [EvGo Loop]"
    by (auto simp: doMaster_def split: sum.splits prod.splits)
  from t have d: "d = Second * tickTime s" and pos: "0 < sint (Second * tickTime s)"
    by (auto simp: NewTicker_def split: if_splits)
  from work_events [OF w] obtain rest where r: "evs1 = EvLock # rest"
    and n: "\<not> ticker_or_quit_received evs1" by blast
  from e d r show "\<exists>rest. evs = EvNewTicker (Second * tickTime s) # EvLock # rest @ [EvGo Loop]"
    by simp
  from e n show "\<not> ticker_or_quit_received evs" by simp
  from pos show "0 < sint (Second * tickTime s)" .
qed

lemma first_boot: "first_inv (boot s inp host uuid)"
  by (simp add: first_inv_def boot_def)

lemma first_keep:
  assumes "first_inv \<sigma>" and "before_loop (e_pc \<sigma>') \<Longrightarrow> before_loop (e_pc \<sigma>)"
    and "before_loop (e_pc \<sigma>') \<Longrightarrow> \<exists>evs. events \<sigma>' = events \<sigma> @ evs \<and> \<not> ticker_or_quit_received evs"
  shows "first_inv \<sigma>'"
  using assms by (auto simp: first_inv_def split: if_splits)

lemma before_loop_work [simp]: "before_loop (E_Work c p) = (c = First)"
  by (cases c) simp_all

lemma before_loop_work_done [simp]: "before_loop (work_done c) = (c = First)"
  by (cases c) (simp_all add: work_done_def)

lemma first_step:
  assumes "first_inv \<sigma>" and "step a \<sigma> = Some \<sigma>'"
  shows "first_inv \<sigma>'"
proof (cases a)
  case QuitArrives
  with assms(2) show ?thesis
    by (intro first_keep [OF assms(1)])
       (auto simp: step_def quit_arrives_def split: if_splits)
next
  case WatcherStep
  with assms(2) show ?thesis
    by (intro first_keep [OF assms(1)])
       (auto simp: step_def watcher_step_def split: if_splits wpc.splits option.splits)
next
  case DoneTaken
  with assms(2) show ?thesis
    by (intro first_keep [OF assms(1)])
       (auto simp: step_def done_taken_def split: if_splits)
next
  case EngineStep
  with assms(2) show ?thesis
    by (intro first_keep [OF assms(1)])
       (auto simp: step_def engine_step_def
             split: if_splits epc.splits option.splits sum.splits)
next
  case (LockReturns r)
  with assms(2) have l: "lock_returns r \<sigma> = Some \<sigma>'"
    by (simp add: step_def split: if_splits)
  then show ?thesis
  proof (cases rule: lock_returns_cases)
    case (1 c p)
    then show ?thesis by (intro first_keep [OF assms(1)]) auto
  next
    case (2 c s' evs p)
    with setMaster_events [OF 2(2)] show ?thesis
      by (intro first_keep [OF assms(1)]) auto
  next
    case (3 c s' evs)
    with setMaster_events [OF 3(2)] show ?thesis
      by (intro first_keep [OF assms(1)]) auto
  next
    case (4 c s' evs x)
    with setMaster_events [OF 4(2)] show ?thesis
      by (intro first_keep [OF assms(1)]) auto
  qed
next
  case (MasterReturns err)
  with assms(2) show ?thesis
    by (intro first_keep [OF assms(1)])
       (auto simp: step_def master_returns_def split: if_splits epc.splits phase.splits)
next
  case TickerFires
  with assms(2) show ?thesis
    by (intro first_keep [OF assms(1)])
       (auto simp: step_def ticker_fires_def split: if_splits option.splits)
next
  case SelectTick
  with assms(2) show ?thesis
    by (intro first_keep [OF assms(1)])
       (auto simp: step_def select_tick_def split: if_splits)
next
  case SelectQuit
  with assms(2) show ?thesis
    by (intro first_keep [OF assms(1)])
       (auto simp: step_def select_quit_def split: if_splits option.splits)
qed

lemma first_run: "first_inv \<sigma> \<Longrightarrow> run acts \<sigma> = Some \<sigma>' \<Longrightarrow> first_inv \<sigma>'"
proof (induction acts arbitrary: \<sigma>)
  case Nil
  then show ?case by simp
next
  case (Cons a acts)
  then show ?case by (auto split: option.splits dest: first_step)
qed

lemma first_attempt_needs_no_tick:
  assumes "lock s \<noteq> None" and "0 < sint (Second * tickTime s)"
  shows "\<exists>\<sigma>1 rest. run [EngineStep, LockReturns r] (boot s inp host uuid) = Some \<sigma>1 \<and>
           events \<sigma>1 = EvNewTicker (Second * tickTime s) # EvLock # rest \<and>
           tickerC \<sigma>1 = Some False \<and> crashed \<sigma>1 = None"
  using assms
  by (cases r)
     (auto simp: boot_def Start_def step_def engine_step_def NewTicker_def lock_returns_def
                 setMaster_def isMaster_def split: option.splits)

text \<open>
  Claim C5, as stated, fails. \<open>doMaster\<close> creates the ticker first: the trace of
  \<open>doMaster\<close> begins with \<open>time.NewTicker\<close>, and only then comes the first \<open>Lock\<close>. The
  ticker, already running, can put its first tick into its channel while the first
  \<open>Lock\<close> call is still in progress.
\<close>

theorem ticker_armed_first_counterexample:
  "doMaster sample_kettle None =
     Inr (sample_kettle\<lparr>master := 1\<rparr>,
          [EvNewTicker 30000000000, EvLock, EvLog Info ''[kettle] host__uuid set to master'',
           EvMaster 7, EvGo Loop]) \<and>
   run [EngineStep, TickerFires] (boot sample_new sample_input ''host'' ''uuid'') =
     Some \<lparr>kettle = sample_kettle, input = sample_input, w_pc = W_RecvQuit,
           e_pc = E_Work First InLock, tickerC = Some True, crashed = None,
           events = [EvNewTicker 30000000000]\<rparr>"
  unfolding boot_sample
  by (simp add: doMaster_def work_def setMaster_def isMaster_def infof_def NewTicker_def
                Second_def step_def engine_step_def ticker_fires_def sample_kettle_def
                sample_input_def)

text \<open>
  Claim C5, amended. The ticker is created before the first attempt, which follows it
  immediately; the first work cycle runs in \<open>doMaster\<close> itself, before the goroutine that
  receives from the ticker and from \<open>masterQuit\<close> is started. So under every schedule,
  as long as the first cycle is not over, nothing has been received from the ticker or from
  \<open>masterQuit\<close>; and the first \<open>Lock\<close> call is made and returns without any tick: it does
  not wait for an interval. \<open>doMaster\<close> gets as far as starting the loop whenever the lock
  and the start input are not nil and the ticker interval is positive.
\<close>

theorem first_attempt_before_loop:
  "(doMaster k r = Inr (s', evs) \<longrightarrow>
      (\<exists>rest. evs = EvNewTicker (Second * tickTime k) # EvLock # rest @ [EvGo Loop]) \<and>
      \<not> ticker_or_quit_received evs) \<and>
   (lock k \<noteq> None \<and> startInput k \<noteq> None \<and> 0 < sint (Second * tickTime k) \<longrightarrow>
      (\<exists>k' es. doMaster k r = Inr (k', es))) \<and>
   (run acts (boot s inp host uuid) = Some \<sigma> \<and> before_loop (e_pc \<sigma>) \<longrightarrow>
      \<not> ticker_or_quit_received (events \<sigma>)) \<and>
   (lock s \<noteq> None \<and> 0 < sint (Second * tickTime s) \<longrightarrow>
      (\<exists>\<sigma>1 rest. run [EngineStep, LockReturns r] (boot s inp host uuid) = Some \<sigma>1 \<and>
           events \<sigma>1 = EvNewTicker (Second * tickTime s) # EvLock # rest \<and>
           tickerC \<sigma>1 = Some False \<and> crashed \<sigma>1 = None))"
proof (intro conjI impI)
  assume "doMaster k r = Inr (s', evs)"
  from doMaster_events(1,2) [OF this]
  show "\<exists>rest. evs = EvNewTicker (Second * tickTime k) # EvLock # rest @ [EvGo Loop]"
    and "\<not> ticker_or_quit_received evs" .
next
  assume "lock k \<noteq> None \<and> startInput k \<noteq> None \<and> 0 < sint (Second * tickTime k)"
  with work_total [of k r] show "\<exists>k' es. doMaster k r = Inr (k', es)"
    by (auto simp: doMaster_def NewTicker_def)
next
  assume a: "run acts (boot s inp host uuid) = Some \<sigma> \<and> before_loop (e_pc \<sigma>)"
  with first_run [OF first_boot, of acts s inp host uuid \<sigma>]
  show "\<not> ticker_or_quit_received (events \<sigma>)" by (simp add: first_inv_def)
next
  assume "lock s \<noteq> None \<and> 0 < sint (Second * tickTime s)"
  then show "\<exists>\<sigma>1 rest. run [EngineStep, LockReturns r] (boot s inp host uuid) = Some \<sigma>1 \<and>
           events \<sigma>1 = EvNewTicker (Second * tickTime s) # EvLock # rest \<and>
           tickerC \<sigma>1 = Some False \<and> crashed \<sigma>1 = None"
    using first_attempt_needs_no_tick by blast
qed

theorem first_attempt_before_loop_witness:
  "doMaster sample_kettle None =
     Inr (sample_kettle\<lparr>master := 1\<rparr>,
          [EvNewTicker 30000000000, EvLock, EvLog Info ''[kettle] host__uuid set to master'',
           EvMaster 7, EvGo Loop]) \<and>
   lock sample_kettle \<noteq> None \<and> startInput sample_kettle \<noteq> None \<and>
   0 < sint (Second * tickTime sample_kettle) \<and>
   (\<exists>\<sigma>. run [EngineStep, TickerFires, QuitArrives, WatcherStep, LockReturns None]
           (boot sample_new sample_input ''host'' ''uuid'') = Some \<sigma> \<and>
        before_loop (e_pc \<sigma>) \<and> \<not> ticker_or_quit_received (events \<sigma>)) \<and>
   lock sample_new \<noteq> None \<and> 0 < sint (Second * tickTime sample_new) \<and>
   (\<exists>\<sigma>1 rest. run [EngineStep, LockReturns None]
                  (boot sample_new sample_input ''host'' ''uuid'') = Some \<sigma>1 \<and>
        events \<sigma>1 = EvNewTicker 30000000000 # EvLock # rest \<and> tickerC \<sigma>1 = Some False)"
proof -
  have d: "doMaster sample_kettle None =
     Inr (sample_kettle\<lparr>master := 1\<rparr>,
          [EvNewTicker 30000000000, EvLock, EvLog Info ''[kettle] host__uuid set to master'',
           EvMaster 7, EvGo Loop])"
    by (simp add: doMaster_def work_def setMaster_def isMaster_def infof_def NewTicker_def
                  Second_def sample_kettle_def sample_input_def)
  have r: "\<exists>\<sigma>. run [EngineStep, TickerFires, QuitArrives, WatcherStep, LockReturns None]
           (boot sample_new sample_input ''host'' ''uuid'') = Some \<sigma> \<and> before_loop (e_pc \<sigma>)"
    unfolding boot_sample
    by (simp add: step_def engine_step_def ticker_fires_def quit_arrives_def
                  watcher_step_def lock_returns_def setMaster_def isMaster_def infof_def
                  NewTicker_def Second_def chan_send_def sample_kettle_def sample_input_def
                  make_chan_def)
  then obtain \<sigma> where
    r1: "run [EngineStep, TickerFires, QuitArrives, WatcherStep, LockReturns None]
           (boot sample_new sample_input ''host'' ''uuid'') = Some \<sigma>"
    and r2: "before_loop (e_pc \<sigma>)" by blast
  have p: "lock sample_new \<noteq> None" "0 < sint (Second * tickTime sample_new)"
    by (simp_all add: sample_new_def Second_def)
  have q: "lock sample_kettle \<noteq> None" "startInput sample_kettle \<noteq> None"
    "0 < sint (Second * tickTime sample_kettle)"
    by (simp_all add: sample_kettle_def Second_def)
  have t: "Second * tickTime sample_new = 30000000000"
    by (simp add: sample_new_def Second_def)
  from first_attempt_before_loop
         [of sample_kettle None "sample_kettle\<lparr>master := 1\<rparr>"
             "[EvNewTicker 30000000000, EvLock,
               EvLog Info ''[kettle] host__uuid set to master'', EvMaster 7, EvGo Loop]"
             "[EngineStep, TickerFires, QuitArrives, WatcherStep, LockReturns None]"
             sample_new sample_input "''host''" "''uuid''" \<sigma>]
       d r1 r2 p q t
  show ?thesis by auto
qed

end
